theory Spec2Isabelle
  imports Main
begin

section \<open>The object pool of Pool.h\<close>

text \<open>
  \<^verbatim>\<open>Pool<type>\<close> keeps an array of pointers to heap objects
  (\<^verbatim>\<open>type** m_pArrayLocation\<close>), its length \<^verbatim>\<open>m_iSize\<close> and the index
  \<^verbatim>\<open>m_iNextFreePosition\<close> of the first free slot. Objects are compared by address
  and cloned by value, and the array itself is reallocated by \<^verbatim>\<open>size(int)\<close>, so
  the model has an explicit heap with two stores: one for the pooled objects, one for
  the pointer arrays.

  Every operation that can go wrong returns an \<open>option\<close>: \<open>None\<close> stands for
  undefined behaviour of the C++ program (reading an uninitialised pointer or array cell,
  indexing outside an array block, using or deleting an object that is not live). The
  values the source returns to signal a refusal (\<^verbatim>\<open>nullptr\<close>, \<^verbatim>\<open>false\<close>) are
  ordinary results inside \<open>Some\<close>. The source throws nothing: each of its
  \<^verbatim>\<open>throw\<close> statements is commented out.

  The \<^verbatim>\<open>int\<close> members are modelled as unbounded integers. No arithmetic of the
  class can overflow: \<^verbatim>\<open>m_iNextFreePosition++\<close> runs only below \<^verbatim>\<open>m_iSize\<close>,
  \<^verbatim>\<open>m_iNextFreePosition - 1\<close> only above a found index, and the loop counters stay
  below an \<^verbatim>\<open>int\<close> bound. Allocation never fails in the model (no
  \<^verbatim>\<open>std::bad_alloc\<close>), and the mismatch of \<^verbatim>\<open>new[]\<close> with the scalar
  \<^verbatim>\<open>delete\<close> on the pointer array is not tracked: \<^verbatim>\<open>delete m_pArrayLocation\<close>
  frees the block.
\<close>

subsection \<open>Pointers and the heap\<close>

type_synonym addr = nat

text \<open>A \<^verbatim>\<open>type*\<close>: null or the address of an object.\<close>

datatype obj_ptr = nullptr | Obj addr

text \<open>A \<^verbatim>\<open>type**\<close>: the address of an array block, or the indeterminate value of a
  member that no constructor has assigned.\<close>

datatype arr_ptr = Indeterminate | Arr addr

text \<open>
  An object address is an index into \<open>objects\<close>, an array address an index into
  \<open>arrays\<close>; a deleted block is \<open>None\<close>. Addresses are never reused. A cell of an
  array block is \<open>None\<close> until it is first written (\<^verbatim>\<open>new type*[n]\<close> does not
  initialise its cells).
\<close>

record 'v heap =
  objects :: "'v option list"
  arrays :: "obj_ptr option list option list"

text \<open>\<^verbatim>\<open>new type()\<close>, where \<open>d\<close> is the value of a default-constructed object.\<close>

definition new_object :: "'v \<Rightarrow> 'v heap \<Rightarrow> obj_ptr \<times> 'v heap" where
  "new_object d h = (Obj (length (objects h)), h\<lparr>objects := objects h @ [Some d]\<rparr>)"

text \<open>\<^verbatim>\<open>*p\<close> as a value.\<close>

definition read_object :: "'v heap \<Rightarrow> obj_ptr \<Rightarrow> 'v option" where
  "read_object h p =
     (case p of
        nullptr \<Rightarrow> None
      | Obj a \<Rightarrow> if a < length (objects h) then objects h ! a else None)"

text \<open>\<^verbatim>\<open>*p = v\<close>.\<close>

definition write_object :: "'v heap \<Rightarrow> obj_ptr \<Rightarrow> 'v \<Rightarrow> 'v heap option" where
  "write_object h p v =
     (case p of
        nullptr \<Rightarrow> None
      | Obj a \<Rightarrow>
          (case read_object h p of
             None \<Rightarrow> None
           | Some _ \<Rightarrow> Some (h\<lparr>objects := (objects h)[a := Some v]\<rparr>)))"

text \<open>\<^verbatim>\<open>delete p\<close>: nothing for a null pointer, undefined for an object that is not live.\<close>

definition delete_object :: "'v heap \<Rightarrow> obj_ptr \<Rightarrow> 'v heap option" where
  "delete_object h p =
     (case p of
        nullptr \<Rightarrow> Some h
      | Obj a \<Rightarrow>
          (case read_object h p of
             None \<Rightarrow> None
           | Some _ \<Rightarrow> Some (h\<lparr>objects := (objects h)[a := None]\<rparr>)))"

text \<open>\<^verbatim>\<open>new type*[n]\<close>; the source calls it with \<open>n > 0\<close> only.\<close>

definition new_array :: "int \<Rightarrow> 'v heap \<Rightarrow> (arr_ptr \<times> 'v heap) option" where
  "new_array n h =
     (if n < 0 then None
      else Some (Arr (length (arrays h)),
                 h\<lparr>arrays := arrays h @ [Some (replicate (nat n) None)]\<rparr>))"

text \<open>The cells of the block an array pointer points to.\<close>

definition get_array :: "'v heap \<Rightarrow> arr_ptr \<Rightarrow> obj_ptr option list option" where
  "get_array h ap =
     (case ap of
        Indeterminate \<Rightarrow> None
      | Arr a \<Rightarrow> if a < length (arrays h) then arrays h ! a else None)"

text \<open>\<^verbatim>\<open>ap[i]\<close> as a value.\<close>

definition read_cell :: "'v heap \<Rightarrow> arr_ptr \<Rightarrow> int \<Rightarrow> obj_ptr option" where
  "read_cell h ap i =
     (case get_array h ap of
        None \<Rightarrow> None
      | Some cs \<Rightarrow> if 0 \<le> i \<and> i < int (length cs) then cs ! nat i else None)"

text \<open>\<^verbatim>\<open>ap[i] = p\<close>.\<close>

definition write_cell :: "'v heap \<Rightarrow> arr_ptr \<Rightarrow> int \<Rightarrow> obj_ptr \<Rightarrow> 'v heap option" where
  "write_cell h ap i p =
     (case ap of
        Indeterminate \<Rightarrow> None
      | Arr a \<Rightarrow>
          (case get_array h ap of
             None \<Rightarrow> None
           | Some cs \<Rightarrow>
               if 0 \<le> i \<and> i < int (length cs)
               then Some (h\<lparr>arrays := (arrays h)[a := Some (cs[nat i := Some p])]\<rparr>)
               else None))"

text \<open>\<^verbatim>\<open>delete ap\<close> for an array block; undefined for a block that is not live.\<close>

definition delete_array :: "'v heap \<Rightarrow> arr_ptr \<Rightarrow> 'v heap option" where
  "delete_array h ap =
     (case ap of
        Indeterminate \<Rightarrow> None
      | Arr a \<Rightarrow>
          (case get_array h ap of
             None \<Rightarrow> None
           | Some _ \<Rightarrow> Some (h\<lparr>arrays := (arrays h)[a := None]\<rparr>)))"

subsection \<open>The class\<close>

record Pool =
  m_iSize :: int
  m_iNextFreePosition :: int
  m_pArrayLocation :: arr_ptr

text \<open>The members as their default initialisers leave them, before a constructor body
  runs: \<^verbatim>\<open>m_iSize = 10\<close>, \<^verbatim>\<open>m_iNextFreePosition = 0\<close>, and no value for
  \<^verbatim>\<open>m_pArrayLocation\<close>.\<close>

definition Pool_members :: Pool where
  "Pool_members = \<lparr>m_iSize = 10, m_iNextFreePosition = 0, m_pArrayLocation = Indeterminate\<rparr>"

text \<open>The loop of \<^verbatim>\<open>Pool()\<close> and \<^verbatim>\<open>Pool(const int)\<close>:
  \<^verbatim>\<open>for (i = 0; i < n; i++) { l_pObject = new type(); m_pArrayLocation[i] = l_pObject; }\<close>\<close>

function fill_default :: "'v \<Rightarrow> arr_ptr \<Rightarrow> int \<Rightarrow> int \<Rightarrow> 'v heap \<Rightarrow> 'v heap option" where
  "fill_default d ap i n h =
     (if i < n then
        (case new_object d h of
           (l_pObject, h1) \<Rightarrow>
             (case write_cell h1 ap i l_pObject of
                None \<Rightarrow> None
              | Some h2 \<Rightarrow> fill_default d ap (i + 1) n h2))
      else Some h)"
  by pat_completeness auto
termination
  by (relation "measure (\<lambda>(d, ap, i, n, h). nat (n - i))") auto

declare fill_default.simps [simp del]

text \<open>The loop of \<^verbatim>\<open>Pool(type*, const int)\<close>:
  \<^verbatim>\<open>l_pClone = new type(); *l_pClone = *a_pObjectToPool; m_pArrayLocation[i] = l_pClone;\<close>\<close>

function fill_clones :: "'v \<Rightarrow> obj_ptr \<Rightarrow> arr_ptr \<Rightarrow> int \<Rightarrow> int \<Rightarrow> 'v heap \<Rightarrow> 'v heap option" where
  "fill_clones d a_pObjectToPool ap i n h =
     (if i < n then
        (case new_object d h of
           (l_pClone, h1) \<Rightarrow>
             (case read_object h1 a_pObjectToPool of
                None \<Rightarrow> None
              | Some v \<Rightarrow>
                  (case write_object h1 l_pClone v of
                     None \<Rightarrow> None
                   | Some h2 \<Rightarrow>
                       (case write_cell h2 ap i l_pClone of
                          None \<Rightarrow> None
                        | Some h3 \<Rightarrow> fill_clones d a_pObjectToPool ap (i + 1) n h3))))
      else Some h)"
  by pat_completeness auto
termination
  by (relation "measure (\<lambda>(d, t, ap, i, n, h). nat (n - i))") auto

declare fill_clones.simps [simp del]

text \<open>The loop of the destructor: \<^verbatim>\<open>delete m_pArrayLocation[i_pointer]\<close> for every
  index below \<^verbatim>\<open>m_iSize\<close>. The third loop of \<^verbatim>\<open>size(int)\<close> is the same loop from
  \<^verbatim>\<open>a_iNewSize\<close> on.\<close>

function delete_from :: "arr_ptr \<Rightarrow> int \<Rightarrow> int \<Rightarrow> 'v heap \<Rightarrow> 'v heap option" where
  "delete_from ap i n h =
     (if i < n then
        (case read_cell h ap i of
           None \<Rightarrow> None
         | Some p \<Rightarrow>
             (case delete_object h p of
                None \<Rightarrow> None
              | Some h1 \<Rightarrow> delete_from ap (i + 1) n h1))
      else Some h)"
  by pat_completeness auto
termination
  by (relation "measure (\<lambda>(ap, i, n, h). nat (n - i))") auto

declare delete_from.simps [simp del]

text \<open>\<^verbatim>\<open>~Pool()\<close>.\<close>

definition Pool_destructor :: "'v heap \<Rightarrow> Pool \<Rightarrow> 'v heap option" where
  "Pool_destructor h this =
     (case delete_from (m_pArrayLocation this) 0 (m_iSize this) h of
        None \<Rightarrow> None
      | Some h1 \<Rightarrow> delete_array h1 (m_pArrayLocation this))"

text \<open>\<^verbatim>\<open>delete this\<close> inside a constructor: the destructor runs on the members as they
  are, then the constructor returns to its caller as usual. (That the object's own
  storage is released as well is not tracked.)\<close>

definition delete_this :: "'v heap \<Rightarrow> Pool \<Rightarrow> ('v heap \<times> Pool) option" where
  "delete_this h this =
     (case Pool_destructor h this of
        None \<Rightarrow> None
      | Some h1 \<Rightarrow> Some (h1, this))"

text \<open>\<^verbatim>\<open>Pool()\<close>.\<close>

definition Pool_default :: "'v \<Rightarrow> 'v heap \<Rightarrow> ('v heap \<times> Pool) option" where
  "Pool_default d h =
     (case new_array (m_iSize Pool_members) h of
        None \<Rightarrow> None
      | Some (ap, h1) \<Rightarrow>
          (case fill_default d ap 0 (m_iSize Pool_members) h1 of
             None \<Rightarrow> None
           | Some h2 \<Rightarrow> Some (h2, Pool_members\<lparr>m_pArrayLocation := ap\<rparr>)))"

text \<open>\<^verbatim>\<open>Pool(const int a_iSize)\<close>. For a size that is not positive the source runs
  \<^verbatim>\<open>delete this\<close> (the \<^verbatim>\<open>throw\<close> above it is commented out).\<close>

definition Pool_sized :: "'v \<Rightarrow> 'v heap \<Rightarrow> int \<Rightarrow> ('v heap \<times> Pool) option" where
  "Pool_sized d h a_iSize =
     (if a_iSize > 0 then
        (case new_array a_iSize h of
           None \<Rightarrow> None
         | Some (ap, h1) \<Rightarrow>
             (case fill_default d ap 0 a_iSize h1 of
                None \<Rightarrow> None
              | Some h2 \<Rightarrow>
                  Some (h2, Pool_members\<lparr>m_iSize := a_iSize, m_pArrayLocation := ap\<rparr>)))
      else delete_this h Pool_members)"

text \<open>\<^verbatim>\<open>Pool(type* a_pObjectToPool, const int a_iSize)\<close>.\<close>

definition Pool_cloned :: "'v \<Rightarrow> 'v heap \<Rightarrow> obj_ptr \<Rightarrow> int \<Rightarrow> ('v heap \<times> Pool) option" where
  "Pool_cloned d h a_pObjectToPool a_iSize =
     (if a_iSize > 0 then
        (case new_array a_iSize h of
           None \<Rightarrow> None
         | Some (ap, h1) \<Rightarrow>
             (case fill_clones d a_pObjectToPool ap 0 a_iSize h1 of
                None \<Rightarrow> None
              | Some h2 \<Rightarrow>
                  Some (h2, Pool_members\<lparr>m_iSize := a_iSize, m_pArrayLocation := ap\<rparr>)))
      else delete_this h Pool_members)"

text \<open>\<^verbatim>\<open>getNext()\<close>: the pointer returned, \<^verbatim>\<open>nullptr\<close> when nothing is free, and
  the pool after the call. The heap is not touched.\<close>

definition getNext :: "'v heap \<Rightarrow> Pool \<Rightarrow> (obj_ptr \<times> Pool) option" where
  "getNext h this =
     (if m_iNextFreePosition this < m_iSize this then
        (let i_positionPointer = m_iNextFreePosition this;
             this1 = this\<lparr>m_iNextFreePosition := m_iNextFreePosition this + 1\<rparr>
         in case read_cell h (m_pArrayLocation this1) i_positionPointer of
              None \<Rightarrow> None
            | Some p \<Rightarrow> Some (p, this1))
      else Some (nullptr, this))"

text \<open>The search loop of \<^verbatim>\<open>release\<close>: the first index whose cell holds
  \<^verbatim>\<open>a_pAddress\<close>, or \<open>-1\<close>.\<close>

function release_search :: "'v heap \<Rightarrow> Pool \<Rightarrow> obj_ptr \<Rightarrow> int \<Rightarrow> int option" where
  "release_search h this a_pAddress i_location =
     (if i_location < m_iSize this then
        (case read_cell h (m_pArrayLocation this) i_location of
           None \<Rightarrow> None
         | Some p \<Rightarrow>
             if p = a_pAddress then Some i_location
             else release_search h this a_pAddress (i_location + 1))
      else Some (- 1))"
  by pat_completeness auto
termination
  by (relation "measure (\<lambda>(h, this, a, i). nat (m_iSize this - i))") auto

declare release_search.simps [simp del]

text \<open>\<^verbatim>\<open>release(type* a_pAddress)\<close>. The function returns nothing and throws nothing:
  its \<^verbatim>\<open>else\<close> branch (the refusal) is empty, and so is the body of the check
  \<^verbatim>\<open>if (lastActive < 0)\<close>, which therefore has no counterpart here.\<close>

definition release :: "'v heap \<Rightarrow> Pool \<Rightarrow> obj_ptr \<Rightarrow> ('v heap \<times> Pool) option" where
  "release h this a_pAddress =
     (case release_search h this a_pAddress 0 of
        None \<Rightarrow> None
      | Some i_addressPositionInArray \<Rightarrow>
          if i_addressPositionInArray > - 1 \<and> i_addressPositionInArray < m_iNextFreePosition this
          then
            (let lastActive = m_iNextFreePosition this - 1 in
             case read_cell h (m_pArrayLocation this) lastActive of
               None \<Rightarrow> None
             | Some lastActiveAddress \<Rightarrow>
                 (case write_cell h (m_pArrayLocation this) lastActive a_pAddress of
                    None \<Rightarrow> None
                  | Some h1 \<Rightarrow>
                      (case write_cell h1 (m_pArrayLocation this) i_addressPositionInArray
                              lastActiveAddress of
                         None \<Rightarrow> None
                       | Some h2 \<Rightarrow>
                           Some (h2, this\<lparr>m_iNextFreePosition := m_iNextFreePosition this - 1\<rparr>))))
          else Some (h, this))"

text \<open>\<^verbatim>\<open>size() const\<close>, \<^verbatim>\<open>activeCount()\<close> and \<^verbatim>\<open>freeCount()\<close>.\<close>

definition size_get :: "Pool \<Rightarrow> int" where
  "size_get this = m_iSize this"

definition activeCount :: "Pool \<Rightarrow> int" where
  "activeCount this = m_iNextFreePosition this"

definition freeCount :: "Pool \<Rightarrow> int" where
  "freeCount this = m_iSize this - m_iNextFreePosition this"

text \<open>The first loop of \<^verbatim>\<open>size(int)\<close>:
  \<^verbatim>\<open>for (i = 0; i < a_iNewSize && i < m_iSize; i++) l_pNewArray[i] = m_pArrayLocation[i];\<close>\<close>

function size_copy :: "Pool \<Rightarrow> arr_ptr \<Rightarrow> int \<Rightarrow> int \<Rightarrow> 'v heap \<Rightarrow> 'v heap option" where
  "size_copy this l_pNewArray a_iNewSize i h =
     (if i < a_iNewSize \<and> i < m_iSize this then
        (case read_cell h (m_pArrayLocation this) i of
           None \<Rightarrow> None
         | Some p \<Rightarrow>
             (case write_cell h l_pNewArray i p of
                None \<Rightarrow> None
              | Some h1 \<Rightarrow> size_copy this l_pNewArray a_iNewSize (i + 1) h1))
      else Some h)"
  by pat_completeness auto
termination
  by (relation "measure (\<lambda>(this, ap, n, i, h). nat (n - i))") auto

declare size_copy.simps [simp del]

text \<open>The second loop of \<^verbatim>\<open>size(int)\<close>:
  \<^verbatim>\<open>l_pClone = new type(); *l_pClone = *m_pArrayLocation[m_iSize-1]; l_pNewArray[i] = l_pClone;\<close>\<close>

function size_clone :: "'v \<Rightarrow> Pool \<Rightarrow> arr_ptr \<Rightarrow> int \<Rightarrow> int \<Rightarrow> 'v heap \<Rightarrow> 'v heap option" where
  "size_clone d this l_pNewArray a_iNewSize i h =
     (if i < a_iNewSize then
        (case new_object d h of
           (l_pClone, h1) \<Rightarrow>
             (case read_cell h1 (m_pArrayLocation this) (m_iSize this - 1) of
                None \<Rightarrow> None
              | Some src \<Rightarrow>
                  (case read_object h1 src of
                     None \<Rightarrow> None
                   | Some v \<Rightarrow>
                       (case write_object h1 l_pClone v of
                          None \<Rightarrow> None
                        | Some h2 \<Rightarrow>
                            (case write_cell h2 l_pNewArray i l_pClone of
                               None \<Rightarrow> None
                             | Some h3 \<Rightarrow> size_clone d this l_pNewArray a_iNewSize (i + 1) h3)))))
      else Some h)"
  by pat_completeness auto
termination
  by (relation "measure (\<lambda>(d, this, ap, n, i, h). nat (n - i))") auto

declare size_clone.simps [simp del]

text \<open>\<^verbatim>\<open>size(int a_iNewSize)\<close>: the \<^verbatim>\<open>bool\<close> returned, the heap and the pool after
  the call.\<close>

definition size_set :: "'v \<Rightarrow> 'v heap \<Rightarrow> Pool \<Rightarrow> int \<Rightarrow> (bool \<times> 'v heap \<times> Pool) option" where
  "size_set d h this a_iNewSize =
     (if a_iNewSize > 0 then
        (case new_array a_iNewSize h of
           None \<Rightarrow> None
         | Some (l_pNewArray, h1) \<Rightarrow>
             (case size_copy this l_pNewArray a_iNewSize 0 h1 of
                None \<Rightarrow> None
              | Some h2 \<Rightarrow>
                  (case size_clone d this l_pNewArray a_iNewSize (m_iSize this) h2 of
                     None \<Rightarrow> None
                   | Some h3 \<Rightarrow>
                       (case delete_from (m_pArrayLocation this) a_iNewSize (m_iSize this) h3 of
                          None \<Rightarrow> None
                        | Some h4 \<Rightarrow>
                            (case delete_array h4 (m_pArrayLocation this) of
                               None \<Rightarrow> None
                             | Some h5 \<Rightarrow>
                                 (let this1 = this\<lparr>m_pArrayLocation := l_pNewArray\<rparr>;
                                      this2 = (if m_iNextFreePosition this1 > a_iNewSize
                                               then this1\<lparr>m_iNextFreePosition := a_iNewSize\<rparr>
                                               else this1);
                                      this3 = this2\<lparr>m_iSize := a_iNewSize\<rparr>
                                  in Some (True, h5, this3)))))))
      else Some (False, h, this))"

text \<open>\<^verbatim>\<open>activeAddresses(int* a_end)\<close>. The caller's \<^verbatim>\<open>int\<close> variables are a store
  \<open>vars\<close> from addresses to values; \<open>a_end\<close> is \<open>None\<close> for a null pointer and
  \<open>Some k\<close> for the address \<open>k\<close>. Writing through a pointer to no variable is
  undefined.\<close>

definition activeAddresses ::
  "Pool \<Rightarrow> (addr \<rightharpoonup> int) \<Rightarrow> addr option \<Rightarrow> (arr_ptr \<times> (addr \<rightharpoonup> int)) option" where
  "activeAddresses this vars a_end =
     (case a_end of
        None \<Rightarrow> Some (m_pArrayLocation this, vars)
      | Some k \<Rightarrow>
          (case vars k of
             None \<Rightarrow> None
           | Some _ \<Rightarrow> Some (m_pArrayLocation this, vars(k \<mapsto> m_iNextFreePosition this))))"

subsection \<open>Pool states and call sequences\<close>

text \<open>The sequence of pointers the pool's array holds, when the array is a live block
  whose cells have all been written.\<close>

definition storage :: "'v heap \<Rightarrow> Pool \<Rightarrow> obj_ptr list option" where
  "storage h this =
     (case get_array h (m_pArrayLocation this) of
        None \<Rightarrow> None
      | Some cs \<Rightarrow> those cs)"

text \<open>The well-formed pool states: the array has \<^verbatim>\<open>m_iSize\<close> cells,
  \<^verbatim>\<open>m_iSize\<close> is positive, \<^verbatim>\<open>m_iNextFreePosition\<close> lies between \<open>0\<close> and
  \<^verbatim>\<open>m_iSize\<close>, and the cells hold pairwise different pointers to live objects.\<close>

definition pool_inv :: "'v heap \<Rightarrow> Pool \<Rightarrow> bool" where
  "pool_inv h this =
     (case storage h this of
        None \<Rightarrow> False
      | Some xs \<Rightarrow>
          int (length xs) = m_iSize this \<and> 0 < m_iSize this \<and>
          0 \<le> m_iNextFreePosition this \<and> m_iNextFreePosition this \<le> m_iSize this \<and>
          distinct xs \<and> list_all (\<lambda>p. read_object h p \<noteq> None) xs)"

text \<open>A caller's calls: \<^verbatim>\<open>getNext()\<close>, \<^verbatim>\<open>release(p)\<close> with any pointer, and
  \<^verbatim>\<open>size(n)\<close> with any integer.\<close>

datatype operation = Retrieve | Release obj_ptr | Resize int

definition apply_operation ::
  "'v \<Rightarrow> 'v heap \<times> Pool \<Rightarrow> operation \<Rightarrow> ('v heap \<times> Pool) option" where
  "apply_operation d s op =
     (case op of
        Retrieve \<Rightarrow>
          (case getNext (fst s) (snd s) of
             None \<Rightarrow> None
           | Some (r, this1) \<Rightarrow> Some (fst s, this1))
      | Release p \<Rightarrow> release (fst s) (snd s) p
      | Resize n \<Rightarrow>
          (case size_set d (fst s) (snd s) n of
             None \<Rightarrow> None
           | Some (b, h1, this1) \<Rightarrow> Some (h1, this1)))"

text \<open>The states after each call of a sequence, in order.\<close>

fun run :: "'v \<Rightarrow> 'v heap \<times> Pool \<Rightarrow> operation list \<Rightarrow> ('v heap \<times> Pool) list option" where
  "run d s [] = Some []"
| "run d s (op # ops) =
     (case apply_operation d s op of
        None \<Rightarrow> None
      | Some s1 \<Rightarrow>
          (case run d s1 ops of
             None \<Rightarrow> None
           | Some tr \<Rightarrow> Some (s1 # tr)))"

text \<open>\<open>n\<close> calls of \<^verbatim>\<open>getNext()\<close> in a row: the pointers returned and the pool after
  the last call.\<close>

fun getNext_times :: "nat \<Rightarrow> 'v heap \<Rightarrow> Pool \<Rightarrow> (obj_ptr list \<times> Pool) option" where
  "getNext_times 0 h this = Some ([], this)"
| "getNext_times (Suc n) h this =
     (case getNext h this of
        None \<Rightarrow> None
      | Some (r, this1) \<Rightarrow>
          (case getNext_times n h this1 of
             None \<Rightarrow> None
           | Some (rs, this2) \<Rightarrow> Some (r # rs, this2)))"

subsection \<open>States for the worked examples\<close>

text \<open>The empty heap.\<close>

definition empty_heap :: "int heap" where
  "empty_heap = \<lparr>objects = [], arrays = []\<rparr>"

text \<open>A pool of five \<^verbatim>\<open>int\<close> objects with \<open>c\<close> of them handed out, and its heap: the
  objects hold 7, 7, 7, 7 and 9.\<close>

definition heap5 :: "int heap" where
  "heap5 = \<lparr>objects = [Some 7, Some 7, Some 7, Some 7, Some 9],
            arrays = [Some [Some (Obj 0), Some (Obj 1), Some (Obj 2), Some (Obj 3), Some (Obj 4)]]\<rparr>"

definition pool5 :: "int \<Rightarrow> Pool" where
  "pool5 c = \<lparr>m_iSize = 5, m_iNextFreePosition = c, m_pArrayLocation = Arr 0\<rparr>"

section \<open>Auxiliary facts\<close>

subsection \<open>Storage and the well-formed states\<close>

lemma those_map_Some: "those (map Some xs) = Some xs"
  by (induction xs) simp_all

lemma those_eq_Some: "those cs = Some xs \<Longrightarrow> cs = map Some xs"
  by (induction cs arbitrary: xs) (auto split: option.splits)

lemma storage_eq_Some:
  "storage h p = Some xs \<longleftrightarrow>
     (\<exists>a. m_pArrayLocation p = Arr a \<and> a < length (arrays h) \<and> arrays h ! a = Some (map Some xs))"
  by (auto simp: storage_def get_array_def those_map_Some
           split: option.splits arr_ptr.splits if_splits dest: those_eq_Some)

lemma pool_inv_iff:
  "pool_inv h p \<longleftrightarrow>
     (\<exists>xs. storage h p = Some xs \<and> int (length xs) = m_iSize p \<and> 0 < m_iSize p \<and>
        0 \<le> m_iNextFreePosition p \<and> m_iNextFreePosition p \<le> m_iSize p \<and>
        distinct xs \<and> (\<forall>x \<in> set xs. read_object h x \<noteq> None))"
  by (auto simp: pool_inv_def list_all_iff split: option.splits)

lemma read_cell_storage:
  assumes "storage h p = Some xs" "0 \<le> i" "i < int (length xs)"
  shows "read_cell h (m_pArrayLocation p) i = Some (xs ! nat i)"
  using assms by (auto simp: storage_eq_Some read_cell_def get_array_def)

lemma write_cell_storage:
  assumes "storage h p = Some xs" "0 \<le> i" "i < int (length xs)"
  shows "\<exists>h'. write_cell h (m_pArrayLocation p) i x = Some h' \<and> objects h' = objects h \<and>
           storage h' p = Some (xs[nat i := x]) \<and> length (arrays h') = length (arrays h) \<and>
           (\<forall>b. Arr b \<noteq> m_pArrayLocation p \<longrightarrow> arrays h' ! b = arrays h ! b)"
  using assms by (auto simp: storage_eq_Some write_cell_def get_array_def map_update)

lemma read_object_cong: "objects h' = objects h \<Longrightarrow> read_object h' x = read_object h x"
  by (simp add: read_object_def split: obj_ptr.splits)

lemma getNext_inv:
  assumes "pool_inv h p" "storage h p = Some xs"
  shows "getNext h p =
     (if m_iNextFreePosition p < m_iSize p
      then Some (xs ! nat (m_iNextFreePosition p), p\<lparr>m_iNextFreePosition := m_iNextFreePosition p + 1\<rparr>)
      else Some (nullptr, p))"
proof -
  have "storage h (p\<lparr>m_iNextFreePosition := m_iNextFreePosition p + 1\<rparr>) = Some xs"
    using assms(2) by (simp add: storage_def)
  from read_cell_storage[OF this, of "m_iNextFreePosition p"] assms show ?thesis
    by (auto simp: getNext_def pool_inv_iff Let_def)
qed

lemma pool_inv_cursor:
  assumes "pool_inv h p" "0 \<le> c" "c \<le> m_iSize p"
  shows "pool_inv h (p\<lparr>m_iNextFreePosition := c\<rparr>)"
  using assms by (auto simp: pool_inv_def storage_def split: option.splits)

lemma release_search_result:
  assumes "storage h p = Some xs" "int (length xs) = m_iSize p" "0 \<le> i"
  shows "\<exists>r. release_search h p x i = Some r \<and>
           ((r = - 1 \<and> (\<forall>j. nat i \<le> j \<and> j < length xs \<longrightarrow> xs ! j \<noteq> x)) \<or>
            (i \<le> r \<and> r < m_iSize p \<and> xs ! nat r = x \<and>
               (\<forall>j. nat i \<le> j \<and> j < nat r \<longrightarrow> xs ! j \<noteq> x)))"
  using assms
proof (induction h p x i rule: release_search.induct)
  case (1 h p x i)
  show ?case
  proof (cases "i < m_iSize p")
    case False
    then show ?thesis using 1(2-)
      by (subst release_search.simps) auto
  next
    case True
    have rc: "read_cell h (m_pArrayLocation p) i = Some (xs ! nat i)"
      using read_cell_storage[OF 1(2)] 1(3-) True by simp
    show ?thesis
    proof (cases "xs ! nat i = x")
      case eq: True
      then show ?thesis using True 1(4)
        by (subst release_search.simps) (auto simp: rc)
    next
      case neq: False
      from 1(1)[OF True rc neq 1(2,3)] 1(4)
      obtain r where r: "release_search h p x (i + 1) = Some r"
        "(r = - 1 \<and> (\<forall>j. nat (i + 1) \<le> j \<and> j < length xs \<longrightarrow> xs ! j \<noteq> x)) \<or>
            (i + 1 \<le> r \<and> r < m_iSize p \<and> xs ! nat r = x \<and>
               (\<forall>j. nat (i + 1) \<le> j \<and> j < nat r \<longrightarrow> xs ! j \<noteq> x))"
        by auto
      have step: "\<And>j. nat i \<le> j \<Longrightarrow> j = nat i \<or> nat (i + 1) \<le> j"
        using 1(4) by auto
      have fd: "release_search h p x i = Some r"
        by (subst release_search.simps) (simp add: True rc neq r(1))
      from r(2) show ?thesis unfolding fd
      proof
        assume "r = - 1 \<and> (\<forall>j. nat (i + 1) \<le> j \<and> j < length xs \<longrightarrow> xs ! j \<noteq> x)"
        then show "\<exists>r'. Some r = Some r' \<and>
           ((r' = - 1 \<and> (\<forall>j. nat i \<le> j \<and> j < length xs \<longrightarrow> xs ! j \<noteq> x)) \<or>
            (i \<le> r' \<and> r' < m_iSize p \<and> xs ! nat r' = x \<and>
               (\<forall>j. nat i \<le> j \<and> j < nat r' \<longrightarrow> xs ! j \<noteq> x)))"
          using neq step by blast
      next
        assume "i + 1 \<le> r \<and> r < m_iSize p \<and> xs ! nat r = x \<and>
               (\<forall>j. nat (i + 1) \<le> j \<and> j < nat r \<longrightarrow> xs ! j \<noteq> x)"
        then show "\<exists>r'. Some r = Some r' \<and>
           ((r' = - 1 \<and> (\<forall>j. nat i \<le> j \<and> j < length xs \<longrightarrow> xs ! j \<noteq> x)) \<or>
            (i \<le> r' \<and> r' < m_iSize p \<and> xs ! nat r' = x \<and>
               (\<forall>j. nat i \<le> j \<and> j < nat r' \<longrightarrow> xs ! j \<noteq> x)))"
          using neq step by (intro exI[of _ r] conjI refl disjI2) (auto dest: step)
      qed
    qed
  qed
qed


lemma release_search_absent:
  assumes "storage h p = Some xs" "int (length xs) = m_iSize p" "x \<notin> set xs"
  shows "release_search h p x 0 = Some (- 1)"
proof -
  from release_search_result[OF assms(1,2), of 0 x]
  obtain r where r: "release_search h p x 0 = Some r"
    "r = - 1 \<or> (0 \<le> r \<and> r < m_iSize p \<and> xs ! nat r = x)" by auto
  have "\<not> (0 \<le> r \<and> r < m_iSize p \<and> xs ! nat r = x)"
    using assms(2,3) by (auto simp: in_set_conv_nth)
  with r show ?thesis by simp
qed

lemma release_search_present:
  assumes "storage h p = Some xs" "int (length xs) = m_iSize p" "distinct xs"
    "k < length xs" "xs ! k = x"
  shows "release_search h p x 0 = Some (int k)"
proof -
  from release_search_result[OF assms(1,2), of 0 x]
  obtain r where r: "release_search h p x 0 = Some r"
    "(r = - 1 \<and> (\<forall>j. j < length xs \<longrightarrow> xs ! j \<noteq> x)) \<or>
     (0 \<le> r \<and> r < m_iSize p \<and> xs ! nat r = x)" by auto
  from r(2) assms(4,5) have "0 \<le> r" "r < m_iSize p" "xs ! nat r = x" by auto
  then have "nat r < length xs" "xs ! nat r = xs ! k" using assms(2,5) by auto
  then have "nat r = k"
    using nth_eq_iff_index_eq[OF assms(3), of "nat r" k] assms(4) by simp
  with \<open>0 \<le> r\<close> r(1) show ?thesis by simp
qed

lemma release_reject:
  assumes "pool_inv h p" "storage h p = Some xs"
    "x \<notin> set (take (nat (m_iNextFreePosition p)) xs)"
  shows "release h p x = Some (h, p)"
proof (cases "x \<in> set xs")
  case False
  with assms show ?thesis
    by (simp add: release_def release_search_absent pool_inv_iff)
next
  case True
  then obtain k where k: "k < length xs" "xs ! k = x" by (auto simp: in_set_conv_nth)
  have inv: "int (length xs) = m_iSize p" "distinct xs"
    using assms(1,2) by (auto simp: pool_inv_iff)
  have "\<not> k < nat (m_iNextFreePosition p)"
    using assms(3) k by (auto simp: in_set_conv_nth)
  then have "\<not> int k < m_iNextFreePosition p" by simp
  then show ?thesis
    by (simp add: release_def release_search_present[OF assms(2) inv k])
qed

lemma release_accept:
  assumes "pool_inv h p" "storage h p = Some xs"
    "k < nat (m_iNextFreePosition p)" "xs ! k = x"
  shows "\<exists>h'. release h p x = Some (h', p\<lparr>m_iNextFreePosition := m_iNextFreePosition p - 1\<rparr>) \<and>
           objects h' = objects h \<and> length (arrays h') = length (arrays h) \<and>
           (\<forall>b. Arr b \<noteq> m_pArrayLocation p \<longrightarrow> arrays h' ! b = arrays h ! b) \<and>
           storage h' p = Some (xs[nat (m_iNextFreePosition p) - 1 := x,
                                   k := xs ! (nat (m_iNextFreePosition p) - 1)])"
proof -
  let ?c = "m_iNextFreePosition p"
  have inv: "int (length xs) = m_iSize p" "distinct xs" "0 \<le> ?c" "?c \<le> m_iSize p"
    using assms(1,2) by (auto simp: pool_inv_iff)
  have k: "k < length xs" "int k < ?c" "- 1 < int k" using assms(3) inv by auto
  have la: "0 \<le> ?c - 1" "?c - 1 < int (length xs)" "nat (?c - 1) = nat ?c - 1"
    using assms(3) inv by auto
  have rs: "release_search h p x 0 = Some (int k)"
    by (rule release_search_present[OF assms(2) inv(1,2) k(1) assms(4)])
  have rc: "read_cell h (m_pArrayLocation p) (?c - 1) = Some (xs ! (nat ?c - 1))"
    using read_cell_storage[OF assms(2) la(1,2)] la(3) by simp
  from write_cell_storage[OF assms(2) la(1,2), of x] la(3)
  obtain h1 where h1: "write_cell h (m_pArrayLocation p) (?c - 1) x = Some h1"
    "objects h1 = objects h" "storage h1 p = Some (xs[nat ?c - 1 := x])"
    "length (arrays h1) = length (arrays h)"
    "\<forall>b. Arr b \<noteq> m_pArrayLocation p \<longrightarrow> arrays h1 ! b = arrays h ! b"
    by auto
  have k1: "0 \<le> int k" "int k < int (length (xs[nat ?c - 1 := x]))" using k by auto
  from write_cell_storage[OF h1(3) k1, of "xs ! (nat ?c - 1)"]
  obtain h2 where h2: "write_cell h1 (m_pArrayLocation p) (int k) (xs ! (nat ?c - 1)) = Some h2"
    "objects h2 = objects h1"
    "storage h2 p = Some (xs[nat ?c - 1 := x, k := xs ! (nat ?c - 1)])"
    "length (arrays h2) = length (arrays h1)"
    "\<forall>b. Arr b \<noteq> m_pArrayLocation p \<longrightarrow> arrays h2 ! b = arrays h1 ! b"
    by auto
  have "release h p x = Some (h2, p\<lparr>m_iNextFreePosition := ?c - 1\<rparr>)"
    using k(2,3) rs rc h1(1) h2(1) by (simp add: release_def)
  with h1 h2 show ?thesis by simp
qed

lemma storage_cursor [simp]: "storage h (p\<lparr>m_iNextFreePosition := c\<rparr>) = storage h p"
  by (simp add: storage_def)

lemma release_pool_inv:
  assumes "pool_inv h p" "release h p x = Some (h', p')"
  shows "pool_inv h' p'"
proof -
  from assms(1) obtain xs where xs: "storage h p = Some xs" "int (length xs) = m_iSize p"
    "0 < m_iSize p" "0 \<le> m_iNextFreePosition p" "m_iNextFreePosition p \<le> m_iSize p"
    "distinct xs" "\<forall>x \<in> set xs. read_object h x \<noteq> None"
    unfolding pool_inv_iff by blast
  let ?c = "nat (m_iNextFreePosition p)"
  show ?thesis
  proof (cases "x \<in> set (take ?c xs)")
    case False
    from release_reject[OF assms(1) xs(1) False] assms show ?thesis by simp
  next
    case True
    then obtain k where k: "k < ?c" "xs ! k = x" "k < length xs"
      by (auto simp: in_set_conv_nth)
    from release_accept[OF assms(1) xs(1) k(1,2)] assms(2)
    have h1: "p' = p\<lparr>m_iNextFreePosition := m_iNextFreePosition p - 1\<rparr>"
      "objects h' = objects h"
      "storage h' p = Some (xs[?c - 1 := x, k := xs ! (?c - 1)])"
      by auto
    have c1: "?c - 1 < length xs" using k xs by auto
    have sw: "xs[?c - 1 := x, k := xs ! (?c - 1)] = xs[?c - 1 := xs ! k, k := xs ! (?c - 1)]"
      using k by simp
    have d: "distinct (xs[?c - 1 := x, k := xs ! (?c - 1)])"
      unfolding sw using distinct_swap[OF c1 k(3)] xs(6) by simp
    have s: "set (xs[?c - 1 := x, k := xs ! (?c - 1)]) = set xs"
      unfolding sw using set_swap[OF c1 k(3)] by simp
    have l: "length (xs[?c - 1 := x, k := xs ! (?c - 1)]) = length xs" by simp
    have ro: "\<forall>y \<in> set xs. read_object h' y \<noteq> None"
      using xs(7) by (simp add: read_object_cong[OF h1(2)])
    have cur: "0 \<le> m_iNextFreePosition p - 1" "m_iNextFreePosition p - 1 \<le> m_iSize p"
      using k(1) xs(5) by auto
    show ?thesis
      unfolding pool_inv_iff h1(1)
      apply (rule exI[of _ "xs[?c - 1 := x, k := xs ! (?c - 1)]"])
      using xs(2,3) cur d ro h1(3) unfolding s l by simp
  qed
qed

lemma getNext_pool_inv:
  assumes "pool_inv h p" "getNext h p = Some (r, p')"
  shows "pool_inv h p'"
proof -
  from assms(1) obtain xs where xs: "storage h p = Some xs" unfolding pool_inv_iff by blast
  have "p' = p \<or> (m_iNextFreePosition p < m_iSize p \<and> p' = p\<lparr>m_iNextFreePosition := m_iNextFreePosition p + 1\<rparr>)"
    using getNext_inv[OF assms(1) xs] assms(2) by (auto split: if_splits)
  then show ?thesis
  proof
    assume "p' = p" with assms(1) show ?thesis by simp
  next
    assume a: "m_iNextFreePosition p < m_iSize p \<and> p' = p\<lparr>m_iNextFreePosition := m_iNextFreePosition p + 1\<rparr>"
    have "0 \<le> m_iNextFreePosition p" using assms(1) unfolding pool_inv_iff by blast
    with a pool_inv_cursor[OF assms(1), of "m_iNextFreePosition p + 1"] show ?thesis by simp
  qed
qed

subsection \<open>The loops of the constructors and of the resize\<close>

lemma size_copy_result:
  assumes "m_pArrayLocation p = Arr a" "a < length (arrays h)" "arrays h ! a = Some (map Some xs)"
    "int (length xs) = m_iSize p" "b < length (arrays h)" "b \<noteq> a" "arrays h ! b = Some cs"
    "int (length cs) = n" "0 \<le> i" "i \<le> n" "i \<le> m_iSize p"
  shows "\<exists>h'. size_copy p (Arr b) n i h = Some h' \<and> objects h' = objects h \<and>
           arrays h' = (arrays h)[b := Some (take (nat i) cs @
              map Some (drop (nat i) (take (nat n) xs)) @ drop (min (nat n) (length xs)) cs)]"
  using assms
proof (induction p "Arr b" n i h arbitrary: cs rule: size_copy.induct)
  case (1 p n i h)
  show ?case
  proof (cases "i < n \<and> i < m_iSize p")
    case False
    with 1(10-12) 1(5,9) have "nat i = min (nat n) (length xs)" by auto
    then have "take (nat i) cs @ map Some (drop (nat i) (take (nat n) xs)) @
        drop (min (nat n) (length xs)) cs = cs" by simp
    moreover have "(arrays h)[b := Some cs] = arrays h"
      using 1(8) by (metis list_update_id)
    moreover have "size_copy p (Arr b) n i h = Some h"
      by (subst size_copy.simps) (simp only: False if_False)
    ultimately show ?thesis by simp
  next
    case True
    let ?cs' = "cs[nat i := Some (xs ! nat i)]"
    let ?h1 = "h\<lparr>arrays := (arrays h)[b := Some ?cs']\<rparr>"
    have ilt: "nat i < length cs" "nat i < length xs" "nat i < nat n"
      using True 1(5,9,10) by auto
    have rc: "read_cell h (m_pArrayLocation p) i = Some (xs ! nat i)"
      using 1(2-5,10) True ilt by (simp add: read_cell_def get_array_def)
    have wc: "write_cell h (Arr b) i (xs ! nat i) = Some ?h1"
      using 1(6,8,9,10) True by (simp add: write_cell_def get_array_def)
    have "\<exists>h'. size_copy p (Arr b) n (i + 1) ?h1 = Some h' \<and> objects h' = objects ?h1 \<and>
           arrays h' = (arrays ?h1)[b := Some (take (nat (i + 1)) ?cs' @
              map Some (drop (nat (i + 1)) (take (nat n) xs)) @ drop (min (nat n) (length xs)) ?cs')]"
      using 1(2-) True
      by (intro 1(1)[OF True rc wc]) simp_all
    then obtain h' where h': "size_copy p (Arr b) n (i + 1) ?h1 = Some h'"
      "objects h' = objects ?h1"
      "arrays h' = (arrays ?h1)[b := Some (take (nat (i + 1)) ?cs' @
              map Some (drop (nat (i + 1)) (take (nat n) xs)) @ drop (min (nat n) (length xs)) ?cs')]"
      by blast
    have n2: "nat (i + 1) = Suc (nat i)" using 1(10) by simp
    have tk: "take (Suc (nat i)) ?cs' = take (nat i) cs @ [Some (xs ! nat i)]"
      using ilt by (simp add: take_Suc_conv_app_nth)
    have dr: "drop (min (nat n) (length xs)) ?cs' = drop (min (nat n) (length xs)) cs"
      using ilt by simp
    have dx: "drop (nat i) (take (nat n) xs) = xs ! nat i # drop (Suc (nat i)) (take (nat n) xs)"
      using ilt by (simp add: Cons_nth_drop_Suc[symmetric])
    have fd: "size_copy p (Arr b) n i h = Some h'"
      by (subst size_copy.simps) (simp add: True rc wc h'(1))
    show ?thesis
      unfolding fd using h'(2,3)
      by (simp add: n2 tk dr dx)
  qed
qed

lemma size_clone_done: "n \<le> i \<Longrightarrow> size_clone d p ap n i h = Some h"
  by (subst size_clone.simps) simp

lemma delete_from_done: "n \<le> i \<Longrightarrow> delete_from ap i n h = Some h"
  by (subst delete_from.simps) simp

lemma size_clone_result:
  assumes "m_pArrayLocation p = Arr a" "a < length (arrays h)" "arrays h ! a = Some (map Some xs)"
    "int (length xs) = m_iSize p" "0 < m_iSize p" "read_object h (last xs) = Some v"
    "b < length (arrays h)" "b \<noteq> a" "arrays h ! b = Some cs"
    "int (length cs) = n" "0 \<le> i" "i \<le> n"
  shows "\<exists>h'. size_clone d p (Arr b) n i h = Some h' \<and>
           objects h' = objects h @ replicate (nat (n - i)) (Some v) \<and>
           arrays h' = (arrays h)[b := Some (take (nat i) cs @
              map (\<lambda>k. Some (Obj k)) [length (objects h) ..< length (objects h) + nat (n - i)])]"
  using assms
proof (induction d p "Arr b" n i h arbitrary: cs rule: size_clone.induct)
  case (1 d p n i h)
  show ?case
  proof (cases "i < n")
    case False
    with 1(13) have "i = n" by simp
    moreover have "(arrays h)[b := Some cs] = arrays h"
      using 1(10) by (metis list_update_id)
    ultimately show ?thesis using 1(11)
      by (subst size_clone.simps) simp
  next
    case True
    let ?l = "length (objects h)"
    let ?h1 = "h\<lparr>objects := objects h @ [Some d]\<rparr>"
    let ?h2 = "h\<lparr>objects := objects h @ [Some v]\<rparr>"
    let ?cs' = "cs[nat i := Some (Obj ?l)]"
    let ?h3 = "?h2\<lparr>arrays := (arrays h)[b := Some ?cs']\<rparr>"
    have lst: "last xs = xs ! nat (m_iSize p - 1)"
      using 1(5,6) by (cases xs rule: rev_cases) (auto simp: nth_append nat_diff_distrib)
    have no: "new_object d h = (Obj ?l, ?h1)" by (simp add: new_object_def)
    have rc: "read_cell ?h1 (m_pArrayLocation p) (m_iSize p - 1) = Some (last xs)"
      using 1(2-6) by (simp add: read_cell_def get_array_def lst)
    have ro: "read_object ?h1 (last xs) = Some v"
      using 1(7) by (auto simp: read_object_def nth_append split: obj_ptr.splits if_splits)
    have wo: "write_object ?h1 (Obj ?l) v = Some ?h2"
      by (simp add: write_object_def read_object_def)
    have wc: "write_cell ?h2 (Arr b) i (Obj ?l) = Some ?h3"
      using 1(8,10,11,12) True by (simp add: write_cell_def get_array_def)
    have ro3: "read_object ?h3 (last xs) = Some v"
      using 1(7) by (auto simp: read_object_def nth_append split: obj_ptr.splits if_splits)
    have "\<exists>h'. size_clone d p (Arr b) n (i + 1) ?h3 = Some h' \<and>
           objects h' = objects ?h3 @ replicate (nat (n - (i + 1))) (Some v) \<and>
           arrays h' = (arrays ?h3)[b := Some (take (nat (i + 1)) ?cs' @
              map (\<lambda>k. Some (Obj k)) [length (objects ?h3) ..< length (objects ?h3) + nat (n - (i + 1))])]"
      using 1(2-6,8-) True ro3
      by (intro 1(1)[OF True no[symmetric] rc ro wo wc]) simp_all
    then obtain h' where h': "size_clone d p (Arr b) n (i + 1) ?h3 = Some h'"
      "objects h' = objects ?h3 @ replicate (nat (n - (i + 1))) (Some v)"
      "arrays h' = (arrays ?h3)[b := Some (take (nat (i + 1)) ?cs' @
              map (\<lambda>k. Some (Obj k)) [length (objects ?h3) ..< length (objects ?h3) + nat (n - (i + 1))])]"
      by blast
    define k where "k = nat (n - (i + 1))"
    have n1: "nat (n - i) = Suc k" using True by (simp add: k_def)
    have n2: "nat (i + 1) = Suc (nat i)" using 1(12) by simp
    have ilt: "nat i < length cs" using 1(11,12) True by simp
    have tk: "take (Suc (nat i)) ?cs' = take (nat i) cs @ [Some (Obj ?l)]"
      using ilt by (simp add: take_Suc_conv_app_nth)
    have up: "[?l ..< ?l + Suc k] = ?l # [Suc ?l ..< Suc ?l + k]"
      by (simp add: upt_conv_Cons del: upt_Suc)
    have fd: "size_clone d p (Arr b) n i h = Some h'"
      by (subst size_clone.simps) (simp only: True if_True no prod.case rc ro wo wc option.case h')
    show ?thesis
      unfolding fd n1 up using h'(2,3)
      by (simp add: n2 tk k_def[symmetric])
  qed
qed

lemma delete_from_result:
  assumes "a < length (arrays h)" "arrays h ! a = Some (map Some xs)"
    "int (length xs) = n" "0 \<le> i" "i \<le> n" "distinct (drop (nat i) xs)"
    "\<forall>x \<in> set (drop (nat i) xs). read_object h x \<noteq> None"
  shows "\<exists>h'. delete_from (Arr a) i n h = Some h' \<and> arrays h' = arrays h \<and>
           length (objects h') = length (objects h) \<and>
           (\<forall>x. read_object h' x = (if x \<in> set (drop (nat i) xs) then None else read_object h x))"
  using assms
proof (induction "Arr a" i n h rule: delete_from.induct)
  case (1 i n h)
  show ?case
  proof (cases "i < n")
    case False
    with 1(4,6) have "drop (nat i) xs = []" by simp
    then show ?thesis using False
      by (subst delete_from.simps) simp
  next
    case True
    have ilt: "nat i < length xs" using True 1(4,5) by simp
    have n2: "nat (i + 1) = Suc (nat i)" using 1(5) by simp
    have dx: "drop (nat i) xs = xs ! nat i # drop (Suc (nat i)) xs"
      using ilt by (simp add: Cons_nth_drop_Suc)
    have rc: "read_cell h (Arr a) i = Some (xs ! nat i)"
      using 1(2-5) True ilt by (simp add: read_cell_def get_array_def)
    have "read_object h (xs ! nat i) \<noteq> None" using 1(8) dx by simp
    then obtain k where k: "xs ! nat i = Obj k" "k < length (objects h)" "objects h ! k \<noteq> None"
      by (auto simp: read_object_def split: obj_ptr.splits if_splits)
    let ?h1 = "h\<lparr>objects := (objects h)[k := None]\<rparr>"
    have dl: "delete_object h (xs ! nat i) = Some ?h1"
      using k by (auto simp: delete_object_def read_object_def)
    have ro1: "\<And>x. read_object ?h1 x = (if x = xs ! nat i then None else read_object h x)"
      using k by (auto simp: read_object_def nth_list_update split: obj_ptr.splits)
    have notin: "xs ! nat i \<notin> set (drop (Suc (nat i)) xs)" and dd: "distinct (drop (Suc (nat i)) xs)"
      using 1(7) dx by auto
    have "\<exists>h'. delete_from (Arr a) (i + 1) n ?h1 = Some h' \<and> arrays h' = arrays ?h1 \<and>
           length (objects h') = length (objects ?h1) \<and>
           (\<forall>x. read_object h' x = (if x \<in> set (drop (nat (i + 1)) xs) then None else read_object ?h1 x))"
    proof (rule 1(1)[OF True rc dl])
      show "\<forall>x\<in>set (drop (nat (i + 1)) xs). read_object ?h1 x \<noteq> None"
        unfolding n2 ro1 using notin 1(8) dx by auto
    qed (use 1(2-6) True dd n2 in simp_all)
    then obtain h' where h': "delete_from (Arr a) (i + 1) n ?h1 = Some h'"
      "arrays h' = arrays ?h1" "length (objects h') = length (objects ?h1)"
      "\<forall>x. read_object h' x = (if x \<in> set (drop (nat (i + 1)) xs) then None else read_object ?h1 x)"
      by blast
    have fd: "delete_from (Arr a) i n h = Some h'"
      by (subst delete_from.simps) (simp only: True if_True rc dl option.case h')
    show ?thesis
      unfolding fd using h'(2,3,4) unfolding n2 ro1
      by (auto simp: dx)
  qed
qed

lemma pool_inv_last_live:
  assumes "pool_inv h p" "storage h p = Some xs"
  shows "\<exists>v. read_object h (last xs) = Some v"
proof -
  from assms have "xs \<noteq> []" "\<forall>x \<in> set xs. read_object h x \<noteq> None"
    by (auto simp: pool_inv_iff)
  then show ?thesis by (metis last_in_set not_Some_eq)
qed

lemma live_below:
  "read_object h x \<noteq> None \<Longrightarrow> \<exists>k. x = Obj k \<and> k < length (objects h)"
  by (auto simp: read_object_def split: obj_ptr.splits if_splits)

lemma size_set_grow:
  assumes "pool_inv h p" "storage h p = Some xs" "m_iSize p \<le> n"
    "read_object h (last xs) = Some v"
  shows "\<exists>h'. size_set d h p n =
             Some (True, h', p\<lparr>m_iSize := n, m_pArrayLocation := Arr (length (arrays h))\<rparr>) \<and>
           objects h' = objects h @ replicate (nat (n - m_iSize p)) (Some v) \<and>
           storage h' (p\<lparr>m_iSize := n, m_pArrayLocation := Arr (length (arrays h))\<rparr>) =
             Some (xs @ map Obj [length (objects h) ..< length (objects h) + nat (n - m_iSize p)])"
proof -
  from assms(1,2) obtain a where a: "m_pArrayLocation p = Arr a" "a < length (arrays h)"
    "arrays h ! a = Some (map Some xs)"
    by (auto simp: storage_eq_Some)
  from assms(1,2) have inv: "int (length xs) = m_iSize p" "0 < m_iSize p"
    "0 \<le> m_iNextFreePosition p" "m_iNextFreePosition p \<le> m_iSize p"
    by (auto simp: pool_inv_iff)
  let ?b = "length (arrays h)"
  let ?l = "length (objects h)"
  let ?h1 = "h\<lparr>arrays := arrays h @ [Some (replicate (nat n) None)]\<rparr>"
  have n0: "0 < n" using inv assms(3) by simp
  have na: "new_array n h = Some (Arr ?b, ?h1)"
    using n0 by (simp add: new_array_def)
  have "\<exists>h'. size_copy p (Arr ?b) n 0 ?h1 = Some h' \<and> objects h' = objects ?h1 \<and>
           arrays h' = (arrays ?h1)[?b := Some (take (nat 0) (replicate (nat n) None) @
              map Some (drop (nat 0) (take (nat n) xs)) @
              drop (min (nat n) (length xs)) (replicate (nat n) None))]"
    using a inv n0
    by (intro size_copy_result[where a = a]) (simp_all add: nth_append)
  then obtain h2 where h2: "size_copy p (Arr ?b) n 0 ?h1 = Some h2" "objects h2 = objects h"
    "arrays h2 = arrays h @ [Some (map Some xs @ replicate (nat n - length xs) None)]"
    using inv assms(3) by (auto simp: min_def)
  have "\<exists>h'. size_clone d p (Arr ?b) n (m_iSize p) h2 = Some h' \<and>
           objects h' = objects h2 @ replicate (nat (n - m_iSize p)) (Some v) \<and>
           arrays h' = (arrays h2)[?b := Some (take (nat (m_iSize p))
                (map Some xs @ replicate (nat n - length xs) None) @
              map (\<lambda>k. Some (Obj k)) [length (objects h2) ..< length (objects h2) + nat (n - m_iSize p)])]"
    using a inv n0 assms(3,4) h2(2,3)
    by (intro size_clone_result[where a = a and xs = xs])
       (auto simp: nth_append read_object_cong[OF h2(2)])
  then obtain h3 where h3: "size_clone d p (Arr ?b) n (m_iSize p) h2 = Some h3"
    "objects h3 = objects h @ replicate (nat (n - m_iSize p)) (Some v)"
    "arrays h3 = arrays h @ [Some (map Some xs @
        map (\<lambda>k. Some (Obj k)) [?l ..< ?l + nat (n - m_iSize p)])]"
    using inv h2(2,3) by auto
  have h4: "delete_from (m_pArrayLocation p) n (m_iSize p) h3 = Some h3"
    using assms(3) by (rule delete_from_done)
  let ?h5 = "h3\<lparr>arrays := (arrays h3)[a := None]\<rparr>"
  have h5: "delete_array h3 (m_pArrayLocation p) = Some ?h5"
    using a h3(3) by (simp add: delete_array_def get_array_def nth_append)
  have cur: "\<not> n < m_iNextFreePosition p" using inv assms(3) by simp
  have ss: "size_set d h p n =
      Some (True, ?h5, p\<lparr>m_iSize := n, m_pArrayLocation := Arr ?b\<rparr>)"
    using n0 cur by (simp add: size_set_def na h2(1) h3(1) h4 h5 Let_def)
  have st: "storage ?h5 (p\<lparr>m_iSize := n, m_pArrayLocation := Arr ?b\<rparr>) =
      Some (xs @ map Obj [?l ..< ?l + nat (n - m_iSize p)])"
    using a(2) h3(3) by (simp add: storage_eq_Some nth_append comp_def)
  show ?thesis using ss st h3(2) by simp
qed

lemma size_set_shrink:
  assumes "pool_inv h p" "storage h p = Some xs" "0 < n" "n \<le> m_iSize p"
  shows "\<exists>h'. size_set d h p n =
             Some (True, h', p\<lparr>m_iSize := n, m_iNextFreePosition := min (m_iNextFreePosition p) n,
                               m_pArrayLocation := Arr (length (arrays h))\<rparr>) \<and>
           length (objects h') = length (objects h) \<and>
           (\<forall>x. read_object h' x =
                  (if x \<in> set (drop (nat n) xs) then None else read_object h x)) \<and>
           storage h' (p\<lparr>m_iSize := n, m_iNextFreePosition := min (m_iNextFreePosition p) n,
                               m_pArrayLocation := Arr (length (arrays h))\<rparr>) =
             Some (take (nat n) xs)"
proof -
  from assms(1,2) obtain a where a: "m_pArrayLocation p = Arr a" "a < length (arrays h)"
    "arrays h ! a = Some (map Some xs)"
    by (auto simp: storage_eq_Some)
  from assms(1,2) have inv: "int (length xs) = m_iSize p" "0 < m_iSize p"
    "0 \<le> m_iNextFreePosition p" "m_iNextFreePosition p \<le> m_iSize p"
    "distinct xs" "\<forall>x \<in> set xs. read_object h x \<noteq> None"
    by (auto simp: pool_inv_iff)
  let ?b = "length (arrays h)"
  let ?h1 = "h\<lparr>arrays := arrays h @ [Some (replicate (nat n) None)]\<rparr>"
  have na: "new_array n h = Some (Arr ?b, ?h1)"
    using assms(3) by (simp add: new_array_def)
  have "\<exists>h'. size_copy p (Arr ?b) n 0 ?h1 = Some h' \<and> objects h' = objects ?h1 \<and>
           arrays h' = (arrays ?h1)[?b := Some (take (nat 0) (replicate (nat n) None) @
              map Some (drop (nat 0) (take (nat n) xs)) @
              drop (min (nat n) (length xs)) (replicate (nat n) None))]"
    using a inv assms(3)
    by (intro size_copy_result[where a = a]) (simp_all add: nth_append)
  then obtain h2 where h2: "size_copy p (Arr ?b) n 0 ?h1 = Some h2" "objects h2 = objects h"
    "arrays h2 = arrays h @ [Some (map Some (take (nat n) xs))]"
    using inv assms(3,4) by (auto simp: min_def)
  have h3: "size_clone d p (Arr ?b) n (m_iSize p) h2 = Some h2"
    using assms(4) by (rule size_clone_done)
  have "\<exists>h'. delete_from (Arr a) n (m_iSize p) h2 = Some h' \<and> arrays h' = arrays h2 \<and>
           length (objects h') = length (objects h2) \<and>
           (\<forall>x. read_object h' x = (if x \<in> set (drop (nat n) xs) then None else read_object h2 x))"
    using a inv assms(3,4) h2(3)
    by (intro delete_from_result)
       (auto simp: nth_append read_object_cong[OF h2(2)] dest: in_set_dropD)
  then obtain h4 where h4: "delete_from (m_pArrayLocation p) n (m_iSize p) h2 = Some h4"
    "arrays h4 = arrays h @ [Some (map Some (take (nat n) xs))]"
    "length (objects h4) = length (objects h)"
    "\<forall>x. read_object h4 x = (if x \<in> set (drop (nat n) xs) then None else read_object h x)"
    using a(1) h2(2,3) by (auto simp: read_object_cong[OF h2(2)])
  let ?h5 = "h4\<lparr>arrays := (arrays h4)[a := None]\<rparr>"
  have h5: "delete_array h4 (m_pArrayLocation p) = Some ?h5"
    using a h4(2) by (simp add: delete_array_def get_array_def nth_append)
  let ?p' = "p\<lparr>m_iSize := n, m_iNextFreePosition := min (m_iNextFreePosition p) n,
                               m_pArrayLocation := Arr ?b\<rparr>"
  have ss: "size_set d h p n = Some (True, ?h5, ?p')"
    using assms(3) by (simp add: size_set_def na h2(1) h3 h4(1) h5 Let_def min_def)
  have st: "storage ?h5 ?p' = Some (take (nat n) xs)"
    using a(2) h4(2) by (simp add: storage_eq_Some nth_append)
  have ro: "\<forall>x. read_object ?h5 x = (if x \<in> set (drop (nat n) xs) then None else read_object h x)"
    using h4(4) by (simp add: read_object_cong[of ?h5 h4])
  show ?thesis using ss st ro h4(3) by simp
qed

lemma size_set_refuse: "n \<le> 0 \<Longrightarrow> size_set d h p n = Some (False, h, p)"
  by (simp add: size_set_def)

lemma size_set_pool_inv:
  assumes "pool_inv h p" "size_set d h p n = Some (r, h', p')"
  shows "pool_inv h' p'"
proof -
  from assms(1) obtain xs where xs: "storage h p = Some xs" "int (length xs) = m_iSize p"
    "0 < m_iSize p" "0 \<le> m_iNextFreePosition p" "m_iNextFreePosition p \<le> m_iSize p"
    "distinct xs" "\<forall>x \<in> set xs. read_object h x \<noteq> None"
    unfolding pool_inv_iff by blast
  consider "n \<le> 0" | "0 < n" "n \<le> m_iSize p" | "m_iSize p < n" by linarith
  then show ?thesis
  proof cases
    case 1
    with assms show ?thesis by (simp add: size_set_refuse)
  next
    case 2
    let ?p' = "p\<lparr>m_iSize := n, m_iNextFreePosition := min (m_iNextFreePosition p) n,
                  m_pArrayLocation := Arr (length (arrays h))\<rparr>"
    from size_set_shrink[OF assms(1) xs(1) 2, of d]
    obtain h1 where h1: "size_set d h p n = Some (True, h1, ?p')"
      "\<forall>x. read_object h1 x = (if x \<in> set (drop (nat n) xs) then None else read_object h x)"
      "storage h1 ?p' = Some (take (nat n) xs)"
      by blast
    from h1(1) assms(2) have e: "h' = h1" "p' = ?p'" by simp_all
    note r = e(2) h1(2,3)[folded e(1)]
    have disj: "set (take (nat n) xs) \<inter> set (drop (nat n) xs) = {}"
      using xs(6) by (metis append_take_drop_id distinct_append)
    have live: "\<forall>x \<in> set (take (nat n) xs). read_object h' x \<noteq> None"
      using r(2) disj xs(7) by (auto dest: in_set_takeD)
    have len: "int (length (take (nat n) xs)) = n" using 2 xs(2) by simp
    show ?thesis
      unfolding pool_inv_iff r(1)
      apply (rule exI[of _ "take (nat n) xs"])
      using r(3) len 2(1) xs(4,6) live by simp
  next
    case 3
    from pool_inv_last_live[OF assms(1) xs(1)] obtain v where v: "read_object h (last xs) = Some v"
      by blast
    let ?p' = "p\<lparr>m_iSize := n, m_pArrayLocation := Arr (length (arrays h))\<rparr>"
    let ?l = "length (objects h)"
    let ?m = "nat (n - m_iSize p)"
    have le: "m_iSize p \<le> n" using 3 by simp
    from size_set_grow[OF assms(1) xs(1) le v, of d]
    obtain h1 where h1: "size_set d h p n = Some (True, h1, ?p')"
      "objects h1 = objects h @ replicate ?m (Some v)"
      "storage h1 ?p' = Some (xs @ map Obj [?l ..< ?l + ?m])"
      by blast
    from h1(1) assms(2) have e: "h' = h1" "p' = ?p'" by simp_all
    note r = e(2) h1(2,3)[folded e(1)]
    have old: "\<forall>x \<in> set xs. \<exists>k. x = Obj k \<and> k < ?l"
    proof
      fix x assume "x \<in> set xs"
      with xs(7) have "read_object h x \<noteq> None" by simp
      then show "\<exists>k. x = Obj k \<and> k < ?l" by (rule live_below)
    qed
    have "distinct (map Obj [?l ..< ?l + ?m])"
      by (simp add: distinct_map inj_on_def)
    moreover have "set xs \<inter> set (map Obj [?l ..< ?l + ?m]) = {}"
      using old by auto
    ultimately have d: "distinct (xs @ map Obj [?l ..< ?l + ?m])"
      using xs(6) by simp
    have live_old: "\<forall>x \<in> set xs. read_object h' x \<noteq> None"
    proof
      fix x assume "x \<in> set xs"
      with xs(7) old obtain k where "x = Obj k" "k < ?l" "read_object h x \<noteq> None" by blast
      then show "read_object h' x \<noteq> None"
        by (simp add: read_object_def r(2) nth_append)
    qed
    have live_new: "\<forall>x \<in> set (map Obj [?l ..< ?l + ?m]). read_object h' x \<noteq> None"
      by (auto simp: read_object_def r(2) nth_append)
    have len: "int (length (xs @ map Obj [?l ..< ?l + ?m])) = n" using 3 xs(2,3) by simp
    have cur: "m_iNextFreePosition p \<le> n" using xs(5) 3 by simp
    show ?thesis
      unfolding pool_inv_iff r(1)
      apply (rule exI[of _ "xs @ map Obj [?l ..< ?l + ?m]"])
      using r(3) len d live_old live_new xs(3,4) cur 3 by (simp add: ball_Un)
  qed
qed

subsection \<open>Call sequences and constructors\<close>

lemma apply_operation_pool_inv:
  assumes "pool_inv (fst s) (snd s)"
  shows "\<exists>s'. apply_operation d s op = Some s' \<and> pool_inv (fst s') (snd s')"
proof (cases op)
  case Retrieve
  from assms obtain xs where xs: "storage (fst s) (snd s) = Some xs"
    unfolding pool_inv_iff by blast
  from getNext_inv[OF assms xs] obtain r p' where g: "getNext (fst s) (snd s) = Some (r, p')"
    by (auto split: if_splits)
  with getNext_pool_inv[OF assms g] show ?thesis
    by (simp add: apply_operation_def Retrieve)
next
  case (Release x)
  from assms obtain xs where xs: "storage (fst s) (snd s) = Some xs"
    unfolding pool_inv_iff by blast
  have "\<exists>h' p'. release (fst s) (snd s) x = Some (h', p')"
  proof (cases "x \<in> set (take (nat (m_iNextFreePosition (snd s))) xs)")
    case False
    from release_reject[OF assms xs False] show ?thesis by blast
  next
    case True
    then obtain k where "k < nat (m_iNextFreePosition (snd s))" "xs ! k = x"
      by (auto simp: in_set_conv_nth)
    from release_accept[OF assms xs this] show ?thesis by blast
  qed
  then obtain h' p' where g: "release (fst s) (snd s) x = Some (h', p')" by blast
  with release_pool_inv[OF assms g] show ?thesis
    by (simp add: apply_operation_def Release)
next
  case (Resize n)
  from assms obtain xs where xs: "storage (fst s) (snd s) = Some xs"
    unfolding pool_inv_iff by blast
  from pool_inv_last_live[OF assms xs] obtain v where v: "read_object (fst s) (last xs) = Some v"
    by blast
  have "\<exists>r h' p'. size_set d (fst s) (snd s) n = Some (r, h', p')"
  proof -
    consider "n \<le> 0" | "0 < n" "n \<le> m_iSize (snd s)" | "m_iSize (snd s) \<le> n" by linarith
    then show ?thesis
    proof cases
      case 1 from size_set_refuse[OF 1, of d "fst s" "snd s"] show ?thesis by blast
    next
      case 2 from size_set_shrink[OF assms xs 2, of d] show ?thesis by blast
    next
      case 3 from size_set_grow[OF assms xs 3 v, of d] show ?thesis by blast
    qed
  qed
  then obtain r h' p' where g: "size_set d (fst s) (snd s) n = Some (r, h', p')" by blast
  with size_set_pool_inv[OF assms g] show ?thesis
    by (simp add: apply_operation_def Resize)
qed

lemma run_pool_inv:
  assumes "pool_inv (fst s) (snd s)"
  shows "\<exists>tr. run d s ops = Some tr \<and> length tr = length ops \<and>
           (\<forall>s' \<in> set tr. pool_inv (fst s') (snd s'))"
  using assms
proof (induction ops arbitrary: s)
  case Nil
  then show ?case by simp
next
  case (Cons op ops)
  from apply_operation_pool_inv[OF Cons.prems, of d op]
  obtain s1 where s1: "apply_operation d s op = Some s1" "pool_inv (fst s1) (snd s1)" by blast
  from Cons.IH[OF s1(2)] obtain tr where "run d s1 ops = Some tr" "length tr = length ops"
    "\<forall>s' \<in> set tr. pool_inv (fst s') (snd s')" by blast
  with s1 show ?case by simp
qed

lemma fill_default_result:
  assumes "a < length (arrays h)" "arrays h ! a = Some cs" "0 \<le> i" "i \<le> n" "length cs = nat n"
  shows "\<exists>h'. fill_default d (Arr a) i n h = Some h' \<and>
     objects h' = objects h @ replicate (nat (n - i)) (Some d) \<and>
     arrays h' = (arrays h)[a := Some (take (nat i) cs @
                 map (\<lambda>k. Some (Obj k)) [length (objects h) ..< length (objects h) + nat (n - i)])]"
  using assms
proof (induction d "Arr a" i n h arbitrary: cs rule: fill_default.induct)
  case (1 d i n h)
  show ?case
  proof (cases "i < n")
    case False
    with 1 have "i = n" by simp
    moreover have "(arrays h)[a := Some cs] = arrays h"
      using 1 by (metis list_update_id)
    ultimately show ?thesis using 1
      by (subst fill_default.simps) simp
  next
    case True
    let ?l = "length (objects h)"
    let ?h1 = "h\<lparr>objects := objects h @ [Some d]\<rparr>"
    let ?cs' = "cs[nat i := Some (Obj ?l)]"
    let ?h2 = "?h1\<lparr>arrays := (arrays h)[a := Some ?cs']\<rparr>"
    have no: "new_object d h = (Obj ?l, ?h1)" by (simp add: new_object_def)
    have wc: "write_cell ?h1 (Arr a) i (Obj ?l) = Some ?h2"
      using 1 True by (simp add: write_cell_def get_array_def)
    have "\<exists>h'. fill_default d (Arr a) (i + 1) n ?h2 = Some h' \<and>
       objects h' = objects ?h2 @ replicate (nat (n - (i + 1))) (Some d) \<and>
       arrays h' = (arrays ?h2)[a := Some (take (nat (i + 1)) ?cs' @
                 map (\<lambda>k. Some (Obj k)) [length (objects ?h2) ..< length (objects ?h2) + nat (n - (i + 1))])]"
      using 1(2-) True
      by (intro 1(1)[OF True no[symmetric] wc]) simp_all
    then obtain h' where h': "fill_default d (Arr a) (i + 1) n ?h2 = Some h'"
       "objects h' = objects ?h2 @ replicate (nat (n - (i + 1))) (Some d)"
       "arrays h' = (arrays ?h2)[a := Some (take (nat (i + 1)) ?cs' @
                 map (\<lambda>k. Some (Obj k)) [length (objects ?h2) ..< length (objects ?h2) + nat (n - (i + 1))])]"
      by blast
    define k where "k = nat (n - (i + 1))"
    have n1: "nat (n - i) = Suc k" using True by (simp add: k_def)
    have n2: "nat (i + 1) = Suc (nat i)" using 1 by simp
    have ilt: "nat i < length cs" using 1 True by simp
    have tk: "take (Suc (nat i)) ?cs' = take (nat i) cs @ [Some (Obj ?l)]"
      using ilt by (simp add: take_Suc_conv_app_nth)
    have up: "[?l ..< ?l + Suc k] = ?l # [Suc ?l ..< Suc ?l + k]"
      by (simp add: upt_conv_Cons del: upt_Suc)
    have fd: "fill_default d (Arr a) i n h = Some h'"
      by (subst fill_default.simps) (simp only: True if_True no prod.case wc option.case h')
    show ?thesis
      unfolding fd n1 up using h'(2,3)
      by (simp add: n2 tk k_def[symmetric])
  qed
qed

lemma fill_clones_result:
  assumes "read_object (h\<lparr>objects := objects h @ [Some d]\<rparr>) t = Some v"
    "b < length (arrays h)" "arrays h ! b = Some cs"
    "int (length cs) = n" "0 \<le> i" "i \<le> n"
  shows "\<exists>h'. fill_clones d t (Arr b) i n h = Some h' \<and>
           objects h' = objects h @ replicate (nat (n - i)) (Some v) \<and>
           arrays h' = (arrays h)[b := Some (take (nat i) cs @
              map (\<lambda>k. Some (Obj k)) [length (objects h) ..< length (objects h) + nat (n - i)])]"
  using assms
proof (induction d t "Arr b" i n h arbitrary: cs rule: fill_clones.induct)
  case (1 d t i n h)
  show ?case
  proof (cases "i < n")
    case False
    with 1(7) have "i = n" by simp
    moreover have "(arrays h)[b := Some cs] = arrays h"
      using 1(4) by (metis list_update_id)
    ultimately show ?thesis using 1(5)
      by (subst fill_clones.simps) simp
  next
    case True
    let ?l = "length (objects h)"
    let ?h1 = "h\<lparr>objects := objects h @ [Some d]\<rparr>"
    let ?h2 = "h\<lparr>objects := objects h @ [Some v]\<rparr>"
    let ?cs' = "cs[nat i := Some (Obj ?l)]"
    let ?h3 = "?h2\<lparr>arrays := (arrays h)[b := Some ?cs']\<rparr>"
    have no: "new_object d h = (Obj ?l, ?h1)" by (simp add: new_object_def)
    have ro: "read_object ?h1 t = Some v"
      using 1(2) .
    have wo: "write_object ?h1 (Obj ?l) v = Some ?h2"
      by (simp add: write_object_def read_object_def)
    have wc: "write_cell ?h2 (Arr b) i (Obj ?l) = Some ?h3"
      using 1(3,4,5,6) True by (simp add: write_cell_def get_array_def)
    have ro3: "read_object (?h3\<lparr>objects := objects ?h3 @ [Some d]\<rparr>) t = Some v"
      using 1(2) by (auto simp: read_object_def nth_append split: obj_ptr.splits if_splits)
    have "\<exists>h'. fill_clones d t (Arr b) (i + 1) n ?h3 = Some h' \<and>
           objects h' = objects ?h3 @ replicate (nat (n - (i + 1))) (Some v) \<and>
           arrays h' = (arrays ?h3)[b := Some (take (nat (i + 1)) ?cs' @
              map (\<lambda>k. Some (Obj k)) [length (objects ?h3) ..< length (objects ?h3) + nat (n - (i + 1))])]"
      using 1(3-) True ro3
      by (intro 1(1)[OF True no[symmetric] ro wo wc]) simp_all
    then obtain h' where h': "fill_clones d t (Arr b) (i + 1) n ?h3 = Some h'"
      "objects h' = objects ?h3 @ replicate (nat (n - (i + 1))) (Some v)"
      "arrays h' = (arrays ?h3)[b := Some (take (nat (i + 1)) ?cs' @
              map (\<lambda>k. Some (Obj k)) [length (objects ?h3) ..< length (objects ?h3) + nat (n - (i + 1))])]"
      by blast
    define k where "k = nat (n - (i + 1))"
    have n1: "nat (n - i) = Suc k" using True by (simp add: k_def)
    have n2: "nat (i + 1) = Suc (nat i)" using 1(6) by simp
    have ilt: "nat i < length cs" using 1(5,6) True by simp
    have tk: "take (Suc (nat i)) ?cs' = take (nat i) cs @ [Some (Obj ?l)]"
      using ilt by (simp add: take_Suc_conv_app_nth)
    have up: "[?l ..< ?l + Suc k] = ?l # [Suc ?l ..< Suc ?l + k]"
      by (simp add: upt_conv_Cons del: upt_Suc)
    have fd: "fill_clones d t (Arr b) i n h = Some h'"
      by (subst fill_clones.simps) (simp only: True if_True no prod.case ro wo wc option.case h')
    show ?thesis
      unfolding fd n1 up using h'(2,3)
      by (simp add: n2 tk k_def[symmetric])
  qed
qed

lemma fresh_pool_inv:
  assumes "storage h' p = Some (map Obj [l ..< l + m])" "length (objects h') = l + m"
    "\<forall>k. l \<le> k \<and> k < l + m \<longrightarrow> objects h' ! k \<noteq> None"
    "m_iSize p = int m" "0 < m" "m_iNextFreePosition p = 0"
  shows "pool_inv h' p"
  unfolding pool_inv_iff
  apply (rule exI[of _ "map Obj [l ..< l + m]"])
  using assms by (auto simp: distinct_map inj_on_def read_object_def)

lemma Pool_sized_result:
  assumes "0 < n"
  shows "\<exists>h'. Pool_sized d h n =
            Some (h', \<lparr>m_iSize = n, m_iNextFreePosition = 0,
                       m_pArrayLocation = Arr (length (arrays h))\<rparr>) \<and>
           objects h' = objects h @ replicate (nat n) (Some d) \<and>
           storage h' \<lparr>m_iSize = n, m_iNextFreePosition = 0,
                       m_pArrayLocation = Arr (length (arrays h))\<rparr> =
             Some (map Obj [length (objects h) ..< length (objects h) + nat n])"
proof -
  let ?b = "length (arrays h)"
  let ?h1 = "h\<lparr>arrays := arrays h @ [Some (replicate (nat n) None)]\<rparr>"
  have na: "new_array n h = Some (Arr ?b, ?h1)"
    using assms by (simp add: new_array_def)
  have "\<exists>h'. fill_default d (Arr ?b) 0 n ?h1 = Some h' \<and>
     objects h' = objects ?h1 @ replicate (nat (n - 0)) (Some d) \<and>
     arrays h' = (arrays ?h1)[?b := Some (take (nat 0) (replicate (nat n) None) @
                 map (\<lambda>k. Some (Obj k)) [length (objects ?h1) ..< length (objects ?h1) + nat (n - 0)])]"
    using assms by (intro fill_default_result) simp_all
  then obtain h2 where h2: "fill_default d (Arr ?b) 0 n ?h1 = Some h2"
    "objects h2 = objects h @ replicate (nat n) (Some d)"
    "arrays h2 = arrays h @ [Some (map (\<lambda>k. Some (Obj k))
         [length (objects h) ..< length (objects h) + nat n])]"
    by auto
  have "Pool_sized d h n = Some (h2, \<lparr>m_iSize = n, m_iNextFreePosition = 0,
                       m_pArrayLocation = Arr ?b\<rparr>)"
    using assms by (simp add: Pool_sized_def na h2(1) Pool_members_def)
  moreover have "storage h2 \<lparr>m_iSize = n, m_iNextFreePosition = 0, m_pArrayLocation = Arr ?b\<rparr> =
             Some (map Obj [length (objects h) ..< length (objects h) + nat n])"
    using h2(3) by (simp add: storage_eq_Some comp_def)
  ultimately show ?thesis using h2(2) by simp
qed

lemma Pool_default_result:
  "\<exists>h'. Pool_default d h =
            Some (h', \<lparr>m_iSize = 10, m_iNextFreePosition = 0,
                       m_pArrayLocation = Arr (length (arrays h))\<rparr>) \<and>
           objects h' = objects h @ replicate 10 (Some d) \<and>
           storage h' \<lparr>m_iSize = 10, m_iNextFreePosition = 0,
                       m_pArrayLocation = Arr (length (arrays h))\<rparr> =
             Some (map Obj [length (objects h) ..< length (objects h) + 10])"
proof -
  let ?b = "length (arrays h)"
  let ?h1 = "h\<lparr>arrays := arrays h @ [Some (replicate (nat 10) None)]\<rparr>"
  have na: "new_array 10 h = Some (Arr ?b, ?h1)"
    by (simp add: new_array_def)
  have "\<exists>h'. fill_default d (Arr ?b) 0 10 ?h1 = Some h' \<and>
     objects h' = objects ?h1 @ replicate (nat (10 - 0)) (Some d) \<and>
     arrays h' = (arrays ?h1)[?b := Some (take (nat 0) (replicate (nat 10) None) @
                 map (\<lambda>k. Some (Obj k)) [length (objects ?h1) ..< length (objects ?h1) + nat (10 - 0)])]"
    by (intro fill_default_result) simp_all
  then obtain h2 where h2: "fill_default d (Arr ?b) 0 10 ?h1 = Some h2"
    "objects h2 = objects h @ replicate 10 (Some d)"
    "arrays h2 = arrays h @ [Some (map (\<lambda>k. Some (Obj k))
         [length (objects h) ..< length (objects h) + 10])]"
    by auto
  have "Pool_default d h = Some (h2, \<lparr>m_iSize = 10, m_iNextFreePosition = 0,
                       m_pArrayLocation = Arr ?b\<rparr>)"
    using na h2(1) by (simp add: Pool_default_def Pool_members_def)
  moreover have "storage h2 \<lparr>m_iSize = 10, m_iNextFreePosition = 0, m_pArrayLocation = Arr ?b\<rparr> =
             Some (map Obj [length (objects h) ..< length (objects h) + 10])"
    using h2(3) by (simp add: storage_eq_Some comp_def)
  ultimately show ?thesis using h2(2) by simp
qed

lemma Pool_cloned_result:
  assumes "0 < n" "read_object (h\<lparr>objects := objects h @ [Some d]\<rparr>) t = Some v"
  shows "\<exists>h'. Pool_cloned d h t n =
            Some (h', \<lparr>m_iSize = n, m_iNextFreePosition = 0,
                       m_pArrayLocation = Arr (length (arrays h))\<rparr>) \<and>
           objects h' = objects h @ replicate (nat n) (Some v) \<and>
           storage h' \<lparr>m_iSize = n, m_iNextFreePosition = 0,
                       m_pArrayLocation = Arr (length (arrays h))\<rparr> =
             Some (map Obj [length (objects h) ..< length (objects h) + nat n])"
proof -
  let ?b = "length (arrays h)"
  let ?h1 = "h\<lparr>arrays := arrays h @ [Some (replicate (nat n) None)]\<rparr>"
  have na: "new_array n h = Some (Arr ?b, ?h1)"
    using assms by (simp add: new_array_def)
  have "\<exists>h'. fill_clones d t (Arr ?b) 0 n ?h1 = Some h' \<and>
     objects h' = objects ?h1 @ replicate (nat (n - 0)) (Some v) \<and>
     arrays h' = (arrays ?h1)[?b := Some (take (nat 0) (replicate (nat n) None) @
                 map (\<lambda>k. Some (Obj k)) [length (objects ?h1) ..< length (objects ?h1) + nat (n - 0)])]"
  proof (rule fill_clones_result)
    have "read_object (?h1\<lparr>objects := objects ?h1 @ [Some d]\<rparr>) t =
          read_object (h\<lparr>objects := objects h @ [Some d]\<rparr>) t"
      by (rule read_object_cong) simp
    with assms(2) show "read_object (?h1\<lparr>objects := objects ?h1 @ [Some d]\<rparr>) t = Some v"
      by simp
  qed (use assms in simp_all)
  then obtain h2 where h2: "fill_clones d t (Arr ?b) 0 n ?h1 = Some h2"
    "objects h2 = objects h @ replicate (nat n) (Some v)"
    "arrays h2 = arrays h @ [Some (map (\<lambda>k. Some (Obj k))
         [length (objects h) ..< length (objects h) + nat n])]"
    by auto
  have "Pool_cloned d h t n = Some (h2, \<lparr>m_iSize = n, m_iNextFreePosition = 0,
                       m_pArrayLocation = Arr ?b\<rparr>)"
    using assms by (simp add: Pool_cloned_def na h2(1) Pool_members_def)
  moreover have "storage h2 \<lparr>m_iSize = n, m_iNextFreePosition = 0, m_pArrayLocation = Arr ?b\<rparr> =
             Some (map Obj [length (objects h) ..< length (objects h) + nat n])"
    using h2(3) by (simp add: storage_eq_Some comp_def)
  ultimately show ?thesis using h2(2) by simp
qed

lemma constructed_pool_inv:
  assumes "Pool_default d h0 = Some (h, p) \<or> Pool_sized d h0 n = Some (h, p) \<or>
           Pool_cloned d h0 t n = Some (h, p)"
  shows "pool_inv h p \<and> m_iNextFreePosition p = 0"
proof -
  have undef: "delete_this h0 Pool_members = (None :: ('a heap \<times> Pool) option)"
    by (simp add: delete_this_def Pool_destructor_def Pool_members_def
        delete_from.simps[of Indeterminate 0] read_cell_def get_array_def)
  from assms consider (a) "Pool_default d h0 = Some (h, p)"
    | (b) "0 < n" "Pool_sized d h0 n = Some (h, p)"
    | (c) "0 < n" "Pool_cloned d h0 t n = Some (h, p)"
    by (auto simp: Pool_sized_def Pool_cloned_def undef split: if_splits)
  then show ?thesis
  proof cases
    case a
    from Pool_default_result[of d h0] a
    have "storage h p = Some (map Obj [length (objects h0) ..< length (objects h0) + 10])"
      "objects h = objects h0 @ replicate 10 (Some d)" "m_iSize p = 10" "m_iNextFreePosition p = 0"
      by auto
    then show ?thesis
      by (intro conjI fresh_pool_inv[where l = "length (objects h0)" and m = 10])
         (auto simp: nth_append)
  next
    case b
    from Pool_sized_result[OF b(1), of d h0] b
    have "storage h p = Some (map Obj [length (objects h0) ..< length (objects h0) + nat n])"
      "objects h = objects h0 @ replicate (nat n) (Some d)" "m_iSize p = n" "m_iNextFreePosition p = 0"
      by auto
    then show ?thesis using b(1)
      by (intro conjI fresh_pool_inv[where l = "length (objects h0)" and m = "nat n"])
         (auto simp: nth_append)
  next
    case c
    let ?h1 = "h0\<lparr>arrays := arrays h0 @ [Some (replicate (nat n) None)]\<rparr>"
    have "\<exists>v. read_object (h0\<lparr>objects := objects h0 @ [Some d]\<rparr>) t = Some v"
    proof (rule ccontr)
      assume "\<not> (\<exists>v. read_object (h0\<lparr>objects := objects h0 @ [Some d]\<rparr>) t = Some v)"
      then have "read_object (h0\<lparr>objects := objects h0 @ [Some d]\<rparr>) t = None" by simp
      moreover have "read_object (?h1\<lparr>objects := objects ?h1 @ [Some d]\<rparr>) t =
          read_object (h0\<lparr>objects := objects h0 @ [Some d]\<rparr>) t"
        by (rule read_object_cong) simp
      ultimately have "read_object (?h1\<lparr>objects := objects ?h1 @ [Some d]\<rparr>) t = None"
        by simp
      then have "fill_clones d t (Arr (length (arrays h0))) 0 n ?h1 = None"
        using c(1) by (subst fill_clones.simps) (simp add: new_object_def)
      then have "Pool_cloned d h0 t n = None"
        using c(1) by (simp add: Pool_cloned_def new_array_def)
      with c(2) show False by simp
    qed
    then obtain v where v: "read_object (h0\<lparr>objects := objects h0 @ [Some d]\<rparr>) t = Some v"
      by blast
    from Pool_cloned_result[OF c(1) v] c
    have "storage h p = Some (map Obj [length (objects h0) ..< length (objects h0) + nat n])"
      "objects h = objects h0 @ replicate (nat n) (Some v)" "m_iSize p = n" "m_iNextFreePosition p = 0"
      by auto
    then show ?thesis using c(1)
      by (intro conjI fresh_pool_inv[where l = "length (objects h0)" and m = "nat n"])
         (auto simp: nth_append)
  qed
qed

subsection \<open>The example states and repeated retrieval\<close>

lemma storage_heap5: "storage heap5 (pool5 c) = Some [Obj 0, Obj 1, Obj 2, Obj 3, Obj 4]"
  by (simp add: storage_def get_array_def heap5_def pool5_def)

lemma pool_inv_heap5: "0 \<le> c \<Longrightarrow> c \<le> 5 \<Longrightarrow> pool_inv heap5 (pool5 c)"
  by (simp add: pool_inv_def storage_heap5) (simp add: pool5_def heap5_def read_object_def)

lemma stored_not_null:
  assumes "pool_inv h p" "storage h p = Some xs" "x \<in> set xs"
  shows "x \<noteq> nullptr"
  using assms by (auto simp: pool_inv_iff read_object_def)

lemma getNext_times_success:
  assumes "pool_inv h p" "storage h p = Some xs" "m_iNextFreePosition p + int n \<le> m_iSize p"
  shows "getNext_times n h p =
     Some (take n (drop (nat (m_iNextFreePosition p)) xs),
           p\<lparr>m_iNextFreePosition := m_iNextFreePosition p + int n\<rparr>)"
  using assms
proof (induction n arbitrary: p)
  case 0
  then show ?case by simp
next
  case (Suc n)
  let ?c = "m_iNextFreePosition p"
  let ?p1 = "p\<lparr>m_iNextFreePosition := ?c + 1\<rparr>"
  have inv: "0 \<le> ?c" "int (length xs) = m_iSize p"
    using Suc.prems(1,2) by (auto simp: pool_inv_iff)
  have lt: "?c < m_iSize p" using Suc.prems(3) by simp
  have g: "getNext h p = Some (xs ! nat ?c, ?p1)"
    using getNext_inv[OF Suc.prems(1,2)] lt by simp
  have inv1: "pool_inv h ?p1" by (rule getNext_pool_inv[OF Suc.prems(1) g])
  have st1: "storage h ?p1 = Some xs" using Suc.prems(2) by simp
  have "getNext_times n h ?p1 =
     Some (take n (drop (nat (m_iNextFreePosition ?p1)) xs),
           ?p1\<lparr>m_iNextFreePosition := m_iNextFreePosition ?p1 + int n\<rparr>)"
    using Suc.prems(3) by (intro Suc.IH[OF inv1 st1]) simp
  moreover have "nat (?c + 1) = Suc (nat ?c)" using inv(1) by simp
  moreover have "nat ?c < length xs" using inv lt by simp
  then have "drop (nat ?c) xs = xs ! nat ?c # drop (Suc (nat ?c)) xs"
    by (simp add: Cons_nth_drop_Suc)
  ultimately show ?case
    by (simp add: g add.assoc)
qed

lemma getNext_times_all_served:
  assumes "pool_inv h p" "getNext_times n h p = Some (rs, p')" "nullptr \<notin> set rs"
  shows "m_iNextFreePosition p' = m_iNextFreePosition p + int n \<and> m_iSize p' = m_iSize p \<and>
         pool_inv h p'"
  using assms
proof (induction n arbitrary: p rs)
  case 0
  then show ?case by simp
next
  case (Suc n)
  from Suc.prems(1) obtain xs where xs: "storage h p = Some xs" unfolding pool_inv_iff by blast
  from Suc.prems(2) obtain r p1 rs1 where s: "getNext h p = Some (r, p1)"
    "getNext_times n h p1 = Some (rs1, p')" "rs = r # rs1"
    by (auto split: option.splits)
  from Suc.prems(3) s(3) have nn: "r \<noteq> nullptr" "nullptr \<notin> set rs1" by auto
  from getNext_inv[OF Suc.prems(1) xs] s(1) nn(1)
  have p1: "p1 = p\<lparr>m_iNextFreePosition := m_iNextFreePosition p + 1\<rparr>"
    by (auto split: if_splits)
  have inv1: "pool_inv h p1" by (rule getNext_pool_inv[OF Suc.prems(1) s(1)])
  from Suc.IH[OF inv1 s(2) nn(2)] show ?case by (simp add: p1)
qed

subsection \<open>Worked calls on the example states\<close>

lemma Pool_sized_2: "Pool_sized (0::int) empty_heap 2 =
   Some (\<lparr>objects = [Some 0, Some 0], arrays = [Some [Some (Obj 0), Some (Obj 1)]]\<rparr>,
         \<lparr>m_iSize = 2, m_iNextFreePosition = 0, m_pArrayLocation = Arr 0\<rparr>)"
  by code_simp

lemma size_set_heap5_8: "size_set 0 heap5 (pool5 3) 8 =
   Some (True,
     \<lparr>objects = [Some 7, Some 7, Some 7, Some 7, Some 9, Some 9, Some 9, Some 9],
      arrays = [None, Some [Some (Obj 0), Some (Obj 1), Some (Obj 2), Some (Obj 3), Some (Obj 4),
                            Some (Obj 5), Some (Obj 6), Some (Obj 7)]]\<rparr>,
     \<lparr>m_iSize = 8, m_iNextFreePosition = 3, m_pArrayLocation = Arr 1\<rparr>)"
  by code_simp

lemma size_set_heap5_2: "size_set 0 heap5 (pool5 4) 2 =
   Some (True,
     \<lparr>objects = [Some 7, Some 7, None, None, None],
      arrays = [None, Some [Some (Obj 0), Some (Obj 1)]]\<rparr>,
     \<lparr>m_iSize = 2, m_iNextFreePosition = 2, m_pArrayLocation = Arr 1\<rparr>)"
  by code_simp

subsection \<open>Refused releases\<close>

text \<open>In a well-formed pool, a release of a pointer that is not stored, that is stored at
  an index at or above \<^verbatim>\<open>m_iNextFreePosition\<close>, or that comes when
  \<^verbatim>\<open>m_iNextFreePosition\<close> is \<open>0\<close>, returns with the heap and the pool as they were; so
  does a second release of the same pointer.\<close>

lemma release_refused_no_change:
  assumes "pool_inv h this" "storage h this = Some xs"
  shows "(a \<notin> set xs \<longrightarrow> release h this a = Some (h, this)) \<and>
         (\<forall>i. nat (m_iNextFreePosition this) \<le> i \<and> i < length xs \<and> xs ! i = a \<longrightarrow>
              release h this a = Some (h, this)) \<and>
         (m_iNextFreePosition this = 0 \<longrightarrow> release h this a = Some (h, this)) \<and>
         (\<exists>h1 this1. release h this a = Some (h1, this1) \<and>
              release h1 this1 a = Some (h1, this1))"
proof -
  let ?c = "nat (m_iNextFreePosition this)"
  have inv: "int (length xs) = m_iSize this" "distinct xs" "0 \<le> m_iNextFreePosition this"
    "m_iNextFreePosition this \<le> m_iSize this"
    using assms by (auto simp: pool_inv_iff)
  have p1: "a \<notin> set xs \<longrightarrow> release h this a = Some (h, this)"
    using release_reject[OF assms] by (auto dest: in_set_takeD)
  have p2: "\<forall>i. ?c \<le> i \<and> i < length xs \<and> xs ! i = a \<longrightarrow> release h this a = Some (h, this)"
  proof (intro allI impI, elim conjE)
    fix i assume i: "?c \<le> i" "i < length xs" "xs ! i = a"
    have "a \<notin> set (take ?c xs)"
    proof
      assume "a \<in> set (take ?c xs)"
      then obtain j where j: "j < ?c" "j < length xs" "xs ! j = a"
        by (auto simp: in_set_conv_nth)
      have "i = j" using nth_eq_iff_index_eq[OF inv(2) i(2) j(2)] i(3) j(3) by simp
      with i(1) j(1) show False by simp
    qed
    then show "release h this a = Some (h, this)" by (rule release_reject[OF assms])
  qed
  have p3: "m_iNextFreePosition this = 0 \<longrightarrow> release h this a = Some (h, this)"
    using release_reject[OF assms, of a] by simp
  have p4: "\<exists>h1 this1. release h this a = Some (h1, this1) \<and>
              release h1 this1 a = Some (h1, this1)"
  proof (cases "a \<in> set (take ?c xs)")
    case False
    from release_reject[OF assms False] show ?thesis by simp
  next
    case True
    then obtain k where k: "k < ?c" "xs ! k = a" "k < length xs"
      by (auto simp: in_set_conv_nth)
    let ?this1 = "this\<lparr>m_iNextFreePosition := m_iNextFreePosition this - 1\<rparr>"
    let ?ys = "xs[?c - 1 := a, k := xs ! (?c - 1)]"
    from release_accept[OF assms k(1,2)]
    obtain h1 where h1: "release h this a = Some (h1, ?this1)" "storage h1 this = Some ?ys"
      by blast
    have inv1: "pool_inv h1 ?this1" by (rule release_pool_inv[OF assms(1) h1(1)])
    have st1: "storage h1 ?this1 = Some ?ys" using h1(2) by simp
    have c1: "?c - 1 < length xs" using k inv by simp
    have sw: "?ys = xs[?c - 1 := xs ! k, k := xs ! (?c - 1)]" using k by simp
    have d: "distinct ?ys" unfolding sw using distinct_swap[OF c1 k(3)] inv(2) by simp
    have at: "?ys ! (?c - 1) = a"
      using k c1 by (cases "k = ?c - 1") simp_all
    have "a \<notin> set (take (nat (m_iNextFreePosition ?this1)) ?ys)"
    proof
      assume "a \<in> set (take (nat (m_iNextFreePosition ?this1)) ?ys)"
      then obtain j where j: "j < nat (m_iNextFreePosition this - 1)" "j < length ?ys" "?ys ! j = a"
        by (auto simp: in_set_conv_nth)
      have "nat (m_iNextFreePosition this - 1) = ?c - 1" by (simp add: nat_diff_distrib)
      with j(1) have jl: "j < ?c - 1" by simp
      have "?c - 1 < length ?ys" using c1 by simp
      with d j(2,3) at have "j = ?c - 1" by (metis nth_eq_iff_index_eq)
      with jl show False by simp
    qed
    from release_reject[OF inv1 st1 this] h1(1) show ?thesis by simp
  qed
  from p1 p2 p3 p4 show ?thesis by blast
qed

section \<open>The claims\<close>

text \<open>
  C1. Take a pool as any of the three constructors returns it, and any sequence of calls of
  \<^verbatim>\<open>getNext()\<close>, \<^verbatim>\<open>release(p)\<close> (with any pointer whatever) and
  \<^verbatim>\<open>size(n)\<close> (with any integer whatever). Every call of the sequence is defined, and
  after each of them \<open>0 \<le> m_iNextFreePosition \<le> m_iSize\<close>.
\<close>

theorem cursor_within_bounds_after_every_call:
  assumes "Pool_default d h0 = Some (h, this) \<or> Pool_sized d h0 n = Some (h, this) \<or>
           Pool_cloned d h0 t n = Some (h, this)"
  shows "\<exists>tr. run d (h, this) ops = Some tr \<and> length tr = length ops \<and>
           (\<forall>s \<in> set tr. 0 \<le> m_iNextFreePosition (snd s) \<and>
                            m_iNextFreePosition (snd s) \<le> m_iSize (snd s))"
proof -
  from constructed_pool_inv[OF assms] have "pool_inv (fst (h, this)) (snd (h, this))" by simp
  from run_pool_inv[OF this, of d ops]
  obtain tr where tr: "run d (h, this) ops = Some tr" "length tr = length ops"
    "\<forall>s \<in> set tr. pool_inv (fst s) (snd s)" by blast
  from tr(3) have "\<forall>s \<in> set tr. 0 \<le> m_iNextFreePosition (snd s) \<and>
                            m_iNextFreePosition (snd s) \<le> m_iSize (snd s)"
    by (auto simp: pool_inv_iff)
  with tr(1,2) show ?thesis by blast
qed

theorem cursor_within_bounds_after_every_call_witness:
  "Pool_sized (0::int) empty_heap 2 =
     Some (\<lparr>objects = [Some 0, Some 0], arrays = [Some [Some (Obj 0), Some (Obj 1)]]\<rparr>,
           \<lparr>m_iSize = 2, m_iNextFreePosition = 0, m_pArrayLocation = Arr 0\<rparr>) \<and>
   (\<exists>tr. run (0::int) (\<lparr>objects = [Some 0, Some 0], arrays = [Some [Some (Obj 0), Some (Obj 1)]]\<rparr>,
                \<lparr>m_iSize = 2, m_iNextFreePosition = 0, m_pArrayLocation = Arr 0\<rparr>)
              [Retrieve, Retrieve, Retrieve, Release (Obj 0), Release (Obj 0), Resize 3,
               Resize 0, Resize 1, Retrieve] = Some tr \<and>
         length tr = 9 \<and>
         map (\<lambda>s. (m_iNextFreePosition (snd s), m_iSize (snd s))) tr =
           [(1, 2), (2, 2), (2, 2), (1, 2), (1, 2), (1, 3), (1, 3), (1, 1), (1, 1)])"
proof -
  let ?h = "\<lparr>objects = [Some (0::int), Some 0], arrays = [Some [Some (Obj 0), Some (Obj 1)]]\<rparr>"
  let ?p = "\<lparr>m_iSize = 2, m_iNextFreePosition = 0, m_pArrayLocation = Arr 0\<rparr>"
  let ?ops = "[Retrieve, Retrieve, Retrieve, Release (Obj 0), Release (Obj 0), Resize 3,
               Resize 0, Resize 1, Retrieve]"
  have c: "Pool_sized (0::int) empty_heap 2 = Some (?h, ?p)" by (rule Pool_sized_2)
  from cursor_within_bounds_after_every_call[of 0 empty_heap ?h ?p 2 nullptr ?ops] c
  obtain tr where tr: "run 0 (?h, ?p) ?ops = Some tr" "length tr = 9" by auto
  have "\<exists>tr'. run 0 (?h, ?p) ?ops = Some tr' \<and>
       map (\<lambda>s. (m_iNextFreePosition (snd s), m_iSize (snd s))) tr' =
           [(1, 2), (2, 2), (2, 2), (1, 2), (1, 2), (1, 3), (1, 3), (1, 1), (1, 1)]"
    by (simp add: apply_operation_def getNext_def release_def release_search.simps
        size_set_def size_copy.simps size_clone.simps delete_from.simps new_array_def
        new_object_def read_object_def write_object_def delete_object_def delete_array_def
        read_cell_def write_cell_def get_array_def)
  then obtain tr' where tr': "run 0 (?h, ?p) ?ops = Some tr'"
       "map (\<lambda>s. (m_iNextFreePosition (snd s), m_iSize (snd s))) tr' =
           [(1, 2), (2, 2), (2, 2), (1, 2), (1, 2), (1, 3), (1, 3), (1, 1), (1, 1)]"
    by (elim exE conjE) (rule that)
  from tr(1) tr'(1) have "tr' = tr" by (simp only: option.inject)
  with tr'(2) have m: "map (\<lambda>s. (m_iNextFreePosition (snd s), m_iSize (snd s))) tr =
           [(1, 2), (2, 2), (2, 2), (1, 2), (1, 2), (1, 3), (1, 3), (1, 1), (1, 1)]"
    by (simp only:)
  show ?thesis
    by (intro conjI exI[of _ tr]) (rule c tr(1) tr(2) m)+
qed

text \<open>
  C2. In a well-formed pool, \<^verbatim>\<open>release(a)\<close> for a pointer \<open>a\<close> stored at an index
  \<open>i\<close> below \<^verbatim>\<open>m_iNextFreePosition\<close> puts \<open>a\<close> at index
  \<^verbatim>\<open>m_iNextFreePosition - 1\<close>, puts the pointer that was there at index \<open>i\<close>, leaves
  every other cell as it was, and subtracts one from \<^verbatim>\<open>m_iNextFreePosition\<close>. The
  objects and the other array blocks of the heap are untouched.
\<close>

theorem release_swaps_with_last_active:
  assumes "pool_inv h this" "storage h this = Some xs"
    "i < nat (m_iNextFreePosition this)" "xs ! i = a"
  shows "\<exists>h' ys. release h this a =
              Some (h', this\<lparr>m_iNextFreePosition := m_iNextFreePosition this - 1\<rparr>) \<and>
           storage h' this = Some ys \<and> length ys = length xs \<and>
           ys ! (nat (m_iNextFreePosition this) - 1) = a \<and>
           ys ! i = xs ! (nat (m_iNextFreePosition this) - 1) \<and>
           (\<forall>j. j < length xs \<and> j \<noteq> i \<and> j \<noteq> nat (m_iNextFreePosition this) - 1 \<longrightarrow>
                ys ! j = xs ! j) \<and>
           objects h' = objects h \<and> length (arrays h') = length (arrays h) \<and>
           (\<forall>b. Arr b \<noteq> m_pArrayLocation this \<longrightarrow> arrays h' ! b = arrays h ! b)"
proof -
  let ?c = "nat (m_iNextFreePosition this)"
  let ?ys = "xs[?c - 1 := a, i := xs ! (?c - 1)]"
  have inv: "int (length xs) = m_iSize this" "m_iNextFreePosition this \<le> m_iSize this"
    using assms(1,2) by (auto simp: pool_inv_iff)
  have b: "i < length xs" "?c - 1 < length xs" using assms(3) inv by auto
  from release_accept[OF assms]
  obtain h' where h': "release h this a =
       Some (h', this\<lparr>m_iNextFreePosition := m_iNextFreePosition this - 1\<rparr>)"
    "objects h' = objects h" "length (arrays h') = length (arrays h)"
    "\<forall>b. Arr b \<noteq> m_pArrayLocation this \<longrightarrow> arrays h' ! b = arrays h ! b"
    "storage h' this = Some ?ys"
    by blast
  have 1: "?ys ! (?c - 1) = a" using b assms(4) by (cases "i = ?c - 1") simp_all
  have 2: "?ys ! i = xs ! (?c - 1)" using b by simp
  have 3: "\<forall>j. j < length xs \<and> j \<noteq> i \<and> j \<noteq> ?c - 1 \<longrightarrow> ?ys ! j = xs ! j" by simp
  have 4: "length ?ys = length xs" by simp
  from h' 1 2 3 4 show ?thesis by blast
qed

theorem release_swaps_with_last_active_witness:
  "pool_inv heap5 (pool5 3) \<and> storage heap5 (pool5 3) = Some [Obj 0, Obj 1, Obj 2, Obj 3, Obj 4] \<and>
   (0::nat) < nat (m_iNextFreePosition (pool5 3)) \<and>
   [Obj 0, Obj 1, Obj 2, Obj 3, Obj 4] ! 0 = Obj 0 \<and>
   (\<exists>h'. release heap5 (pool5 3) (Obj 0) = Some (h', pool5 2) \<and>
      storage h' (pool5 3) = Some [Obj 2, Obj 1, Obj 0, Obj 3, Obj 4] \<and>
      objects h' = objects heap5)"
proof -
  have i: "pool_inv heap5 (pool5 3)" by (simp add: pool_inv_heap5)
  have s: "storage heap5 (pool5 3) = Some [Obj 0, Obj 1, Obj 2, Obj 3, Obj 4]"
    by (rule storage_heap5)
  have c: "0 < nat (m_iNextFreePosition (pool5 3))" by (simp add: pool5_def)
  have a: "[Obj 0, Obj 1, Obj 2, Obj 3, Obj 4] ! 0 = Obj 0" by simp
  let ?h1 = "heap5\<lparr>arrays :=
        [Some [Some (Obj 2), Some (Obj 1), Some (Obj 0), Some (Obj 3), Some (Obj 4)]]\<rparr>"
  have r: "release heap5 (pool5 3) (Obj 0) = Some (?h1, pool5 2)"
    by (simp add: release_def release_search.simps read_cell_def write_cell_def get_array_def
        heap5_def pool5_def)
  have st: "storage ?h1 (pool5 3) = Some [Obj 2, Obj 1, Obj 0, Obj 3, Obj 4]"
    by (simp add: storage_def get_array_def heap5_def pool5_def)
  from release_swaps_with_last_active[OF i s c a] r st
  have "\<exists>h'. release heap5 (pool5 3) (Obj 0) = Some (h', pool5 2) \<and>
      storage h' (pool5 3) = Some [Obj 2, Obj 1, Obj 0, Obj 3, Obj 4] \<and>
      objects h' = objects heap5"
    by auto
  with i s c a show ?thesis by blast
qed

text \<open>
  C3. In a well-formed pool \<^verbatim>\<open>getNext()\<close> returns the pointer stored at index
  \<^verbatim>\<open>m_iNextFreePosition\<close> (never null) and adds one to \<^verbatim>\<open>m_iNextFreePosition\<close>
  when that index is below \<^verbatim>\<open>m_iSize\<close>; when the two are equal it returns
  \<^verbatim>\<open>nullptr\<close> (the pool is exhausted) and changes nothing; one of the two cases always
  applies. A pool with nothing handed out serves \<^verbatim>\<open>m_iSize\<close> calls in a row, and
  whenever \<^verbatim>\<open>m_iSize\<close> calls in a row have all been served, the next call returns
  \<^verbatim>\<open>nullptr\<close> and \<^verbatim>\<open>activeCount()\<close> equals \<^verbatim>\<open>size()\<close>.
\<close>

theorem getNext_serves_or_exhausted:
  assumes "pool_inv h this" "storage h this = Some xs"
  shows "(m_iNextFreePosition this < m_iSize this \<longrightarrow>
            getNext h this = Some (xs ! nat (m_iNextFreePosition this),
                                   this\<lparr>m_iNextFreePosition := m_iNextFreePosition this + 1\<rparr>) \<and>
            xs ! nat (m_iNextFreePosition this) \<noteq> nullptr) \<and>
         (m_iNextFreePosition this = m_iSize this \<longrightarrow> getNext h this = Some (nullptr, this)) \<and>
         (m_iNextFreePosition this < m_iSize this \<or> m_iNextFreePosition this = m_iSize this) \<and>
         (m_iNextFreePosition this = 0 \<longrightarrow>
            getNext_times (nat (m_iSize this)) h this =
              Some (xs, this\<lparr>m_iNextFreePosition := m_iSize this\<rparr>) \<and> nullptr \<notin> set xs) \<and>
         (\<forall>rs this'. getNext_times (nat (m_iSize this)) h this = Some (rs, this') \<and>
                      nullptr \<notin> set rs \<longrightarrow>
            getNext h this' = Some (nullptr, this') \<and> activeCount this' = m_iSize this \<and>
            size_get this' = m_iSize this)"
proof -
  let ?c = "m_iNextFreePosition this"
  have inv: "int (length xs) = m_iSize this" "0 < m_iSize this" "0 \<le> ?c" "?c \<le> m_iSize this"
    using assms by (auto simp: pool_inv_iff)
  have nn: "nullptr \<notin> set xs" using stored_not_null[OF assms] by blast
  have a: "?c < m_iSize this \<longrightarrow>
            getNext h this = Some (xs ! nat ?c, this\<lparr>m_iNextFreePosition := ?c + 1\<rparr>) \<and>
            xs ! nat ?c \<noteq> nullptr"
  proof
    assume lt: "?c < m_iSize this"
    then have "nat ?c < length xs" using inv by simp
    then have "xs ! nat ?c \<in> set xs" by simp
    with nn have "xs ! nat ?c \<noteq> nullptr" by metis
    with getNext_inv[OF assms] lt show "getNext h this =
        Some (xs ! nat ?c, this\<lparr>m_iNextFreePosition := ?c + 1\<rparr>) \<and> xs ! nat ?c \<noteq> nullptr"
      by simp
  qed
  have b: "?c = m_iSize this \<longrightarrow> getNext h this = Some (nullptr, this)"
    using getNext_inv[OF assms] by simp
  have c: "?c < m_iSize this \<or> ?c = m_iSize this" using inv by linarith
  have d: "?c = 0 \<longrightarrow> getNext_times (nat (m_iSize this)) h this =
              Some (xs, this\<lparr>m_iNextFreePosition := m_iSize this\<rparr>) \<and> nullptr \<notin> set xs"
  proof
    assume z: "?c = 0"
    have "getNext_times (nat (m_iSize this)) h this =
       Some (take (nat (m_iSize this)) (drop (nat ?c) xs),
             this\<lparr>m_iNextFreePosition := ?c + int (nat (m_iSize this))\<rparr>)"
      using inv z by (intro getNext_times_success[OF assms]) simp
    then show "getNext_times (nat (m_iSize this)) h this =
              Some (xs, this\<lparr>m_iNextFreePosition := m_iSize this\<rparr>) \<and> nullptr \<notin> set xs"
      using z inv nn by simp
  qed
  have e: "\<forall>rs this'. getNext_times (nat (m_iSize this)) h this = Some (rs, this') \<and>
                      nullptr \<notin> set rs \<longrightarrow>
            getNext h this' = Some (nullptr, this') \<and> activeCount this' = m_iSize this \<and>
            size_get this' = m_iSize this"
  proof (intro allI impI, elim conjE)
    fix rs this'
    assume g: "getNext_times (nat (m_iSize this)) h this = Some (rs, this')" "nullptr \<notin> set rs"
    from getNext_times_all_served[OF assms(1) g]
    have r: "m_iNextFreePosition this' = ?c + int (nat (m_iSize this))"
      "m_iSize this' = m_iSize this" "pool_inv h this'" by simp_all
    from r(3) have "m_iNextFreePosition this' \<le> m_iSize this'" by (auto simp: pool_inv_iff)
    with r(1,2) inv have full: "m_iNextFreePosition this' = m_iSize this'" by simp
    then have "getNext h this' = Some (nullptr, this')" by (simp add: getNext_def)
    with full r(2) show "getNext h this' = Some (nullptr, this') \<and>
        activeCount this' = m_iSize this \<and> size_get this' = m_iSize this"
      by (simp add: activeCount_def size_get_def)
  qed
  from a b c d e show ?thesis by blast
qed

theorem getNext_serves_or_exhausted_witness:
  "pool_inv heap5 (pool5 0) \<and> storage heap5 (pool5 0) = Some [Obj 0, Obj 1, Obj 2, Obj 3, Obj 4] \<and>
   getNext heap5 (pool5 0) = Some (Obj 0, pool5 1) \<and>
   getNext_times 5 heap5 (pool5 0) = Some ([Obj 0, Obj 1, Obj 2, Obj 3, Obj 4], pool5 5) \<and>
   getNext heap5 (pool5 5) = Some (nullptr, pool5 5) \<and> activeCount (pool5 5) = 5"
proof -
  have i: "pool_inv heap5 (pool5 0)" by (simp add: pool_inv_heap5)
  have s: "storage heap5 (pool5 0) = Some [Obj 0, Obj 1, Obj 2, Obj 3, Obj 4]"
    by (rule storage_heap5)
  have p: "pool5 0\<lparr>m_iNextFreePosition := 5\<rparr> = pool5 5"
     "pool5 0\<lparr>m_iNextFreePosition := 1\<rparr> = pool5 1" by (simp_all add: pool5_def)
  have m: "m_iNextFreePosition (pool5 0) = 0" "m_iSize (pool5 0) = 5" by (simp_all add: pool5_def)
  note t = getNext_serves_or_exhausted[OF i s, unfolded m p]
  from t have g: "getNext heap5 (pool5 0) = Some (Obj 0, pool5 1)"
    "getNext_times 5 heap5 (pool5 0) = Some ([Obj 0, Obj 1, Obj 2, Obj 3, Obj 4], pool5 5)"
    by (simp_all add: pool5_def)
  have "getNext heap5 (pool5 5) = Some (nullptr, pool5 5) \<and> activeCount (pool5 5) = 5 \<and>
        size_get (pool5 5) = 5"
    by (rule t[THEN conjunct2, THEN conjunct2, THEN conjunct2, THEN conjunct2, rule_format,
          of "[Obj 0, Obj 1, Obj 2, Obj 3, Obj 4]" "pool5 5"]) (simp add: g)
  with i s g show ?thesis by simp
qed

text \<open>
  C4. A release that the pool refuses is expected to fail with an error the caller can
  see, and the comment above the test in the source says as much
  (\<^verbatim>\<open>If found then sort array, otherwise throw an exception\<close>). The code does
  not: \<^verbatim>\<open>release\<close> is \<^verbatim>\<open>void\<close>, the \<^verbatim>\<open>throw\<close> of its \<^verbatim>\<open>else\<close> branch is commented out, and a
  refused call returns like an accepted one. In the pool of five with two objects handed
  out, the releases of an address the pool never held, of the null pointer and of a
  pointer in the free region return normally with the heap and the pool unchanged; so
  does a release when nothing is handed out, and so does the second of two releases of
  the same pointer, whose first is accepted. Nothing in what is returned tells the
  refusals from the accepted call. (That the state is unchanged is the part of the
  expectation the code meets.)
\<close>

theorem release_refusal_is_silent:
  "pool_inv heap5 (pool5 2) \<and> storage heap5 (pool5 2) = Some [Obj 0, Obj 1, Obj 2, Obj 3, Obj 4] \<and>
   release heap5 (pool5 2) (Obj 9) = Some (heap5, pool5 2) \<and>
   release heap5 (pool5 2) nullptr = Some (heap5, pool5 2) \<and>
   release heap5 (pool5 2) (Obj 3) = Some (heap5, pool5 2) \<and>
   pool_inv heap5 (pool5 0) \<and> release heap5 (pool5 0) (Obj 0) = Some (heap5, pool5 0) \<and>
   (\<exists>h1. release heap5 (pool5 2) (Obj 0) = Some (h1, pool5 1) \<and>
         storage h1 (pool5 1) = Some [Obj 1, Obj 0, Obj 2, Obj 3, Obj 4] \<and>
         release h1 (pool5 1) (Obj 0) = Some (h1, pool5 1))"
proof -
  have i: "pool_inv heap5 (pool5 2)" "pool_inv heap5 (pool5 0)" by (simp_all add: pool_inv_heap5)
  have s: "storage heap5 (pool5 c) = Some [Obj 0, Obj 1, Obj 2, Obj 3, Obj 4]" for c
    by (rule storage_heap5)
  have m: "m_iNextFreePosition (pool5 0) = 0" "nat (m_iNextFreePosition (pool5 2)) = 2"
    by (simp_all add: pool5_def)
  note t = release_refused_no_change[OF i(1) s]
  note u = release_refused_no_change[OF i(2) s]
  have "release heap5 (pool5 2) (Obj 9) = Some (heap5, pool5 2)"
    using t[of "Obj 9"] by simp
  moreover have "release heap5 (pool5 2) nullptr = Some (heap5, pool5 2)"
    using t[of nullptr] by simp
  moreover have "release heap5 (pool5 2) (Obj 3) = Some (heap5, pool5 2)"
    by (rule t[of "Obj 3", THEN conjunct2, THEN conjunct1, rule_format, of 3]) (simp add: m)
  moreover have "release heap5 (pool5 0) (Obj 0) = Some (heap5, pool5 0)"
    using u[of "Obj 0"] m(1) by simp
  moreover have "\<exists>h1. release heap5 (pool5 2) (Obj 0) = Some (h1, pool5 1) \<and>
         storage h1 (pool5 1) = Some [Obj 1, Obj 0, Obj 2, Obj 3, Obj 4] \<and>
         release h1 (pool5 1) (Obj 0) = Some (h1, pool5 1)"
  proof -
    let ?h1 = "heap5\<lparr>arrays :=
        [Some [Some (Obj 1), Some (Obj 0), Some (Obj 2), Some (Obj 3), Some (Obj 4)]]\<rparr>"
    have r: "release heap5 (pool5 2) (Obj 0) = Some (?h1, pool5 1)"
      by (simp add: release_def release_search.simps read_cell_def write_cell_def get_array_def
          heap5_def pool5_def)
    have st: "storage ?h1 (pool5 1) = Some [Obj 1, Obj 0, Obj 2, Obj 3, Obj 4]"
      by (simp add: storage_def get_array_def heap5_def pool5_def)
    from t[of "Obj 0"] r have "release ?h1 (pool5 1) (Obj 0) = Some (?h1, pool5 1)" by simp
    with r st show ?thesis by blast
  qed
  ultimately show ?thesis using i s by simp
qed

text \<open>
  C5. For every size that is not positive, \<^verbatim>\<open>Pool(const int)\<close> and
  \<^verbatim>\<open>Pool(type*, const int)\<close> run \<^verbatim>\<open>delete this\<close>: the destructor walks
  \<^verbatim>\<open>m_iSize = 10\<close> cells through the pointer \<^verbatim>\<open>m_pArrayLocation\<close>, which no one
  has assigned. The behaviour is undefined; nothing is thrown or returned to tell the
  caller, who is left holding the destroyed object. So the constructors do not fail with
  a reported error, as would be expected of them for a size that is not positive. (The
  sizes \<open>- int k\<close> are all the integers that are not positive.)
\<close>

theorem constructor_nonpositive_size_undefined:
  "Pool_sized d h (- int k) = None \<and> Pool_cloned d h a_pObjectToPool (- int k) = None"
  by (simp add: Pool_sized_def Pool_cloned_def delete_this_def Pool_destructor_def
      Pool_members_def delete_from.simps[of Indeterminate 0] read_cell_def get_array_def)

text \<open>
  C6. In a well-formed pool with pointers \<open>xs\<close>, \<^verbatim>\<open>size(n)\<close> for \<open>n\<close> above
  \<^verbatim>\<open>m_iSize\<close> returns \<^verbatim>\<open>true\<close>, sets \<^verbatim>\<open>m_iSize\<close> to \<open>n\<close> and keeps
  \<^verbatim>\<open>m_iNextFreePosition\<close>. The new array starts with \<open>xs\<close>; every cell from the old
  size on holds a pointer that is not in \<open>xs\<close>, pointed to no live object before the
  call, and now points to an object whose value is the value the object of the old last
  cell had at the call. All pointers of the new array differ, and every object live
  before the call keeps its value.
\<close>

theorem size_set_growth_clones_last:
  assumes "pool_inv h this" "storage h this = Some xs" "m_iSize this < n"
  shows "\<exists>h' this' ys v. size_set d h this n = Some (True, h', this') \<and>
           m_iSize this' = n \<and> m_iNextFreePosition this' = m_iNextFreePosition this \<and>
           storage h' this' = Some ys \<and> length ys = nat n \<and> take (length xs) ys = xs \<and>
           distinct ys \<and>
           read_object h (xs ! (length xs - 1)) = Some v \<and>
           (\<forall>j. length xs \<le> j \<and> j < nat n \<longrightarrow>
                ys ! j \<notin> set xs \<and> read_object h (ys ! j) = None \<and>
                read_object h' (ys ! j) = Some v) \<and>
           (\<forall>x. read_object h x \<noteq> None \<longrightarrow> read_object h' x = read_object h x)"
proof -
  let ?l = "length (objects h)"
  let ?m = "nat (n - m_iSize this)"
  let ?this' = "this\<lparr>m_iSize := n, m_pArrayLocation := Arr (length (arrays h))\<rparr>"
  let ?ys = "xs @ map Obj [?l ..< ?l + ?m]"
  have inv: "int (length xs) = m_iSize this" "0 < m_iSize this" "distinct xs"
    "\<forall>x \<in> set xs. read_object h x \<noteq> None"
    using assms(1,2) by (auto simp: pool_inv_iff)
  from pool_inv_last_live[OF assms(1,2)] obtain v where v: "read_object h (last xs) = Some v"
    by blast
  have le: "m_iSize this \<le> n" using assms(3) by simp
  from size_set_grow[OF assms(1,2) le v, of d]
  obtain h' where h': "size_set d h this n = Some (True, h', ?this')"
    "objects h' = objects h @ replicate ?m (Some v)" "storage h' ?this' = Some ?ys"
    by blast
  have inv': "pool_inv h' ?this'" by (rule size_set_pool_inv[OF assms(1) h'(1)])
  have d: "distinct ?ys" using inv' h'(3) by (auto simp: pool_inv_iff)
  have len: "length ?ys = nat n" using inv assms(3) by simp
  have "xs \<noteq> []" using inv(1,2) by auto
  then have lst: "xs ! (length xs - 1) = last xs"
    by (simp add: last_conv_nth)
  have old: "\<forall>x. read_object h x \<noteq> None \<longrightarrow> read_object h' x = read_object h x"
    by (auto simp: read_object_def h'(2) nth_append split: obj_ptr.splits if_splits)
  have new: "\<forall>j. length xs \<le> j \<and> j < nat n \<longrightarrow>
                ?ys ! j \<notin> set xs \<and> read_object h (?ys ! j) = None \<and>
                read_object h' (?ys ! j) = Some v"
  proof (intro allI impI, elim conjE)
    fix j assume j: "length xs \<le> j" "j < nat n"
    then have jm: "j - length xs < ?m" using inv by simp
    have yj: "?ys ! j = Obj (?l + (j - length xs))"
      using j jm by (simp add: nth_append)
    have 1: "read_object h (?ys ! j) = None" unfolding yj by (simp add: read_object_def)
    have 2: "?ys ! j \<notin> set xs" using 1 inv(4) by metis
    have 3: "read_object h' (?ys ! j) = Some v"
      unfolding yj using jm by (simp add: read_object_def h'(2) nth_append)
    from 1 2 3 show "?ys ! j \<notin> set xs \<and> read_object h (?ys ! j) = None \<and>
                read_object h' (?ys ! j) = Some v" by simp
  qed
  have tk: "take (length xs) ?ys = xs" by simp
  have f: "m_iSize ?this' = n" "m_iNextFreePosition ?this' = m_iNextFreePosition this" by simp_all
  show ?thesis
    apply (rule exI[of _ h'], rule exI[of _ ?this'], rule exI[of _ ?ys], rule exI[of _ v])
    using h'(1,3) f len tk d v[folded lst] new old by (intro conjI) assumption+
qed

theorem size_set_growth_clones_last_witness:
  "pool_inv heap5 (pool5 3) \<and> storage heap5 (pool5 3) = Some [Obj 0, Obj 1, Obj 2, Obj 3, Obj 4] \<and>
   m_iSize (pool5 3) < 8 \<and>
   (\<exists>h' this'. size_set 0 heap5 (pool5 3) 8 = Some (True, h', this') \<and>
      activeCount this' = 3 \<and> size_get this' = 8 \<and>
      storage h' this' = Some [Obj 0, Obj 1, Obj 2, Obj 3, Obj 4, Obj 5, Obj 6, Obj 7] \<and>
      read_object heap5 (Obj 4) = Some 9 \<and>
      map (read_object h') [Obj 5, Obj 6, Obj 7] = [Some 9, Some 9, Some 9])"
proof -
  have i: "pool_inv heap5 (pool5 3)" by (simp add: pool_inv_heap5)
  have s: "storage heap5 (pool5 3) = Some [Obj 0, Obj 1, Obj 2, Obj 3, Obj 4]"
    by (rule storage_heap5)
  have n: "m_iSize (pool5 3) < 8" by (simp add: pool5_def)
  from size_set_growth_clones_last[OF i s n, of 0]
  obtain h' this' ys v where r: "size_set 0 heap5 (pool5 3) 8 = Some (True, h', this')"
    "m_iSize this' = 8" "m_iNextFreePosition this' = m_iNextFreePosition (pool5 3)"
    "storage h' this' = Some ys"
    by blast
  from r(1) size_set_heap5_8 have e:
    "h' = \<lparr>objects = [Some 7, Some 7, Some 7, Some 7, Some 9, Some 9, Some 9, Some 9],
      arrays = [None, Some [Some (Obj 0), Some (Obj 1), Some (Obj 2), Some (Obj 3), Some (Obj 4),
                            Some (Obj 5), Some (Obj 6), Some (Obj 7)]]\<rparr>"
    "this' = \<lparr>m_iSize = 8, m_iNextFreePosition = 3, m_pArrayLocation = Arr 1\<rparr>"
    by simp_all
  have 1: "activeCount this' = 3" "size_get this' = 8"
    using r(2,3) by (simp_all add: activeCount_def size_get_def pool5_def)
  have 2: "storage h' this' = Some [Obj 0, Obj 1, Obj 2, Obj 3, Obj 4, Obj 5, Obj 6, Obj 7]"
    unfolding e by (simp add: storage_def get_array_def)
  have 3: "read_object heap5 (Obj 4) = Some 9" by (simp add: read_object_def heap5_def)
  have 4: "map (read_object h') [Obj 5, Obj 6, Obj 7] = [Some 9, Some 9, Some 9]"
    unfolding e by (simp add: read_object_def)
  show ?thesis
    by (intro conjI exI[of _ h'] exI[of _ this']) (rule i s n r(1) 1 2 3 4)+
qed

text \<open>
  C7. In a well-formed pool with pointers \<open>xs\<close>, \<^verbatim>\<open>size(n)\<close> for
  \<open>0 < n < m_iSize\<close> returns \<^verbatim>\<open>true\<close> and sets \<^verbatim>\<open>m_iSize\<close> to \<open>n\<close>; the new
  array holds the first \<open>n\<close> pointers of \<open>xs\<close> in place, whose objects keep their values;
  the objects of the other pointers are deleted; \<^verbatim>\<open>m_iNextFreePosition\<close> becomes \<open>n\<close>
  when it was above \<open>n\<close> and is kept otherwise. A pool of five with four handed out,
  resized to two, has \<^verbatim>\<open>activeCount() == 2\<close> and \<^verbatim>\<open>size() == 2\<close>.
\<close>

theorem size_set_shrink_truncates:
  assumes "pool_inv h this" "storage h this = Some xs" "0 < n" "n < m_iSize this"
  shows "\<exists>h' this'. size_set d h this n = Some (True, h', this') \<and>
           m_iSize this' = n \<and>
           m_iNextFreePosition this' =
             (if m_iNextFreePosition this > n then n else m_iNextFreePosition this) \<and>
           storage h' this' = Some (take (nat n) xs) \<and>
           (\<forall>x \<in> set (drop (nat n) xs). read_object h' x = None) \<and>
           (\<forall>x \<in> set (take (nat n) xs). read_object h' x = read_object h x)"
proof -
  let ?this' = "this\<lparr>m_iSize := n,
      m_iNextFreePosition := min (m_iNextFreePosition this) n,
      m_pArrayLocation := Arr (length (arrays h))\<rparr>"
  have inv: "distinct xs" using assms(1,2) by (auto simp: pool_inv_iff)
  have le: "n \<le> m_iSize this" using assms(4) by simp
  from size_set_shrink[OF assms(1,2,3) le, of d]
  obtain h' where h': "size_set d h this n = Some (True, h', ?this')"
    "\<forall>x. read_object h' x = (if x \<in> set (drop (nat n) xs) then None else read_object h x)"
    "storage h' ?this' = Some (take (nat n) xs)"
    by blast
  have disj: "set (take (nat n) xs) \<inter> set (drop (nat n) xs) = {}"
    using inv by (metis append_take_drop_id distinct_append)
  have 1: "\<forall>x \<in> set (drop (nat n) xs). read_object h' x = None" using h'(2) by simp
  have 2: "\<forall>x \<in> set (take (nat n) xs). read_object h' x = read_object h x"
    using h'(2) disj by auto
  have 3: "m_iSize ?this' = n" by simp
  have 4: "m_iNextFreePosition ?this' =
             (if m_iNextFreePosition this > n then n else m_iNextFreePosition this)"
    by (simp add: min_def)
  show ?thesis
    by (intro exI[of _ h'] exI[of _ ?this'] conjI) (rule h'(1) 3 4 h'(3) 1 2)+
qed

theorem size_set_shrink_truncates_witness:
  "pool_inv heap5 (pool5 4) \<and> storage heap5 (pool5 4) = Some [Obj 0, Obj 1, Obj 2, Obj 3, Obj 4] \<and>
   (0::int) < 2 \<and> 2 < m_iSize (pool5 4) \<and>
   (\<exists>h' this'. size_set 0 heap5 (pool5 4) 2 = Some (True, h', this') \<and>
      activeCount this' = 2 \<and> size_get this' = 2 \<and>
      storage h' this' = Some [Obj 0, Obj 1] \<and>
      map (read_object h') [Obj 0, Obj 1, Obj 2, Obj 3, Obj 4] = [Some 7, Some 7, None, None, None])"
proof -
  have i: "pool_inv heap5 (pool5 4)" by (simp add: pool_inv_heap5)
  have s: "storage heap5 (pool5 4) = Some [Obj 0, Obj 1, Obj 2, Obj 3, Obj 4]"
    by (rule storage_heap5)
  have n: "(0::int) < 2" "2 < m_iSize (pool5 4)" by (simp_all add: pool5_def)
  from size_set_shrink_truncates[OF i s n, of 0]
  obtain h' this' where r: "size_set 0 heap5 (pool5 4) 2 = Some (True, h', this')"
    "m_iSize this' = 2"
    "m_iNextFreePosition this' =
       (if m_iNextFreePosition (pool5 4) > 2 then 2 else m_iNextFreePosition (pool5 4))"
    "storage h' this' = Some (take (nat 2) [Obj 0, Obj 1, Obj 2, Obj 3, Obj 4])"
    by blast
  from r(1) size_set_heap5_2 have e:
    "h' = \<lparr>objects = [Some 7, Some 7, None, None, None],
      arrays = [None, Some [Some (Obj 0), Some (Obj 1)]]\<rparr>"
    by simp
  have 1: "activeCount this' = 2" "size_get this' = 2"
    using r(2,3) by (simp_all add: activeCount_def size_get_def pool5_def)
  have 2: "storage h' this' = Some [Obj 0, Obj 1]"
    using r(4) by (simp add: numeral_2_eq_2)
  have 4: "map (read_object h') [Obj 0, Obj 1, Obj 2, Obj 3, Obj 4] =
      [Some 7, Some 7, None, None, None]"
    unfolding e by (simp add: read_object_def)
  show ?thesis
    by (intro conjI exI[of _ h'] exI[of _ this']) (rule i s n r(1) 1 2 4)+
qed

text \<open>
  C8. For every \<open>n \<le> 0\<close>, \<^verbatim>\<open>size(n)\<close> returns \<^verbatim>\<open>false\<close> and leaves the whole
  heap and every member of the pool as they were, whatever the state.
\<close>

theorem size_set_nonpositive_refused:
  "a_iNewSize \<le> 0 \<Longrightarrow> size_set d h this a_iNewSize = Some (False, h, this)"
  by (simp add: size_set_def)

theorem size_set_nonpositive_refused_witness:
  "(0::int) \<le> 0 \<and> size_set 0 heap5 (pool5 3) 0 = Some (False, heap5, pool5 3) \<and>
   (- 4::int) \<le> 0 \<and> size_set 0 heap5 (pool5 3) (- 4) = Some (False, heap5, pool5 3)"
  using size_set_nonpositive_refused[of 0 0 heap5 "pool5 3"]
    size_set_nonpositive_refused[of "- 4" 0 heap5 "pool5 3"]
  by simp

text \<open>
  C9. \<^verbatim>\<open>activeAddresses(a_end)\<close> with a null \<^verbatim>\<open>a_end\<close> writes nothing and returns
  \<^verbatim>\<open>m_pArrayLocation\<close>, the pointer to the pool's own array; with a pointer to a
  variable it stores \<^verbatim>\<open>m_iNextFreePosition\<close> there and returns the same pointer.
\<close>

theorem activeAddresses_null_count_tolerated:
  "activeAddresses this vars None = Some (m_pArrayLocation this, vars) \<and>
   (vars k \<noteq> None \<longrightarrow>
      activeAddresses this vars (Some k) =
        Some (m_pArrayLocation this, vars(k \<mapsto> m_iNextFreePosition this)))"
  by (auto simp: activeAddresses_def)

theorem activeAddresses_null_count_tolerated_witness:
  "activeAddresses (pool5 3) [8 \<mapsto> 0] None = Some (Arr 0, [8 \<mapsto> 0]) \<and>
   [8 \<mapsto> (0::int)] 8 \<noteq> None \<and>
   activeAddresses (pool5 3) [8 \<mapsto> 0] (Some 8) = Some (Arr 0, [8 \<mapsto> 3])"
  using activeAddresses_null_count_tolerated[of "pool5 3" "[8 \<mapsto> 0]" 8]
  by (simp add: pool5_def)

text \<open>
  C10. In a well-formed pool, \<^verbatim>\<open>size(n)\<close> with \<open>n\<close> the current \<^verbatim>\<open>m_iSize\<close>
  returns \<^verbatim>\<open>true\<close> and keeps \<^verbatim>\<open>m_iSize\<close>, \<^verbatim>\<open>m_iNextFreePosition\<close>, the
  sequence of stored pointers and all objects. (The pointers move to a newly allocated
  array block; the old block is freed.)
\<close>

theorem size_set_same_size_keeps_state:
  assumes "pool_inv h this" "storage h this = Some xs"
  shows "\<exists>h' this'. size_set d h this (m_iSize this) = Some (True, h', this') \<and>
           m_iSize this' = m_iSize this \<and>
           m_iNextFreePosition this' = m_iNextFreePosition this \<and>
           storage h' this' = Some xs \<and> objects h' = objects h"
proof -
  from pool_inv_last_live[OF assms] obtain v where v: "read_object h (last xs) = Some v" by blast
  from size_set_grow[OF assms order_refl v, of d] show ?thesis by auto
qed

theorem size_set_same_size_keeps_state_witness:
  "pool_inv heap5 (pool5 3) \<and> storage heap5 (pool5 3) = Some [Obj 0, Obj 1, Obj 2, Obj 3, Obj 4] \<and>
   (\<exists>h'. size_set 0 heap5 (pool5 3) 5 =
            Some (True, h', \<lparr>m_iSize = 5, m_iNextFreePosition = 3, m_pArrayLocation = Arr 1\<rparr>) \<and>
         storage h' \<lparr>m_iSize = 5, m_iNextFreePosition = 3, m_pArrayLocation = Arr 1\<rparr> =
            Some [Obj 0, Obj 1, Obj 2, Obj 3, Obj 4] \<and>
         objects h' = objects heap5)"
proof -
  have i: "pool_inv heap5 (pool5 3)" by (simp add: pool_inv_heap5)
  have s: "storage heap5 (pool5 3) = Some [Obj 0, Obj 1, Obj 2, Obj 3, Obj 4]"
    by (rule storage_heap5)
  have m: "m_iSize (pool5 3) = 5" by (simp add: pool5_def)
  from size_set_same_size_keeps_state[OF i s, of 0, unfolded m]
  obtain h' this' where r: "size_set 0 heap5 (pool5 3) 5 = Some (True, h', this')"
    "storage h' this' = Some [Obj 0, Obj 1, Obj 2, Obj 3, Obj 4]" "objects h' = objects heap5"
    by blast
  have "\<exists>h''. size_set 0 heap5 (pool5 3) 5 =
      Some (True, h'', \<lparr>m_iSize = 5, m_iNextFreePosition = 3, m_pArrayLocation = Arr 1\<rparr>)"
    by (simp add: size_set_def size_copy.simps size_clone.simps delete_from.simps new_array_def
        delete_array_def read_cell_def write_cell_def get_array_def heap5_def pool5_def)
  with r(1) have "this' = \<lparr>m_iSize = 5, m_iNextFreePosition = 3, m_pArrayLocation = Arr 1\<rparr>"
    by simp
  with r i s show ?thesis by blast
qed

end
